theory Spec2Isabelle
  imports Complex_Main "HOL-Library.AList"
begin

unbundle bit_operations_syntax

section \<open>qpageview.rectangles: the \<open>Rectangles\<close> index\<close>

text \<open>
  A shallow embedding of \<^verbatim>\<open>src/rectangles.py\<close>. The class keeps two dictionaries:
  \<^verbatim>\<open>_items\<close> (object to its four coordinates) and \<^verbatim>\<open>_index\<close> (side to a pair of
  parallel lists, the coordinates of that side in ascending order and the objects in the
  same order). Both are Python dictionaries, which keep insertion order, so both are
  association lists here: \<open>AList.update\<close> overwrites in place or appends, as a
  dictionary assignment does, and \<open>AList.delete\<close> is \<^verbatim>\<open>del d[k]\<close>.

  Coordinates and query values are Python integers (\<open>int\<close>); the range queries only
  compare them. The two places that divide by two (\<^verbatim>\<open>/ 2.0\<close> in \<^verbatim>\<open>closest\<close>, \<^verbatim>\<open>/ 2\<close> in
  \<^verbatim>\<open>nearest\<close>) yield halves of integers, which are exact in a Python float below
  \<open>2^53\<close>; they are rationals here.

  Every method that can raise returns its outcome together with the state the instance
  is left in: \<open>Inl e\<close> is the exception, \<open>Inr v\<close> the returned value.
\<close>

subsection \<open>Sides and coordinates\<close>

text \<open>\<^verbatim>\<open>Left = 0; Top = 1; Right = 2; Bottom = 3\<close>\<close>

datatype side = Left | Top | Right | Bottom

fun side_val :: "side \<Rightarrow> nat" where
  "side_val Left = 0"
| "side_val Top = 1"
| "side_val Right = 2"
| "side_val Bottom = 3"

definition side_of :: "nat \<Rightarrow> side" where
  "side_of n = (if n = 0 then Left else if n = 1 then Top else if n = 2 then Right else Bottom)"

text \<open>The result of \<^verbatim>\<open>get_coords\<close>: the four-tuple \<^verbatim>\<open>(x, y, x2, y2)\<close>.\<close>

type_synonym coords = "int \<times> int \<times> int \<times> int"

text \<open>\<^verbatim>\<open>coords[side]\<close>\<close>

fun coord :: "coords \<Rightarrow> side \<Rightarrow> int" where
  "coord (l, t, r, b) Left = l"
| "coord (l, t, r, b) Top = t"
| "coord (l, t, r, b) Right = r"
| "coord (l, t, r, b) Bottom = b"

text \<open>
  The three index expressions of \<^verbatim>\<open>closest\<close>. In Python \<^verbatim>\<open>&\<close> binds tighter than \<^verbatim>\<open>^\<close>,
  which binds tighter than \<^verbatim>\<open>|\<close>: \<^verbatim>\<open>side^1|2\<close> is \<^verbatim>\<open>(side^1)|2\<close> and \<^verbatim>\<open>side^1&2\<close> is
  \<^verbatim>\<open>side^(1&2)\<close>.
\<close>

definition side_xor2 :: "side \<Rightarrow> side" where
  "side_xor2 sd = side_of (side_val sd XOR 2)"

definition side_xor1_or2 :: "side \<Rightarrow> side" where
  "side_xor1_or2 sd = side_of ((side_val sd XOR 1) OR 2)"

definition side_xor_1and2 :: "side \<Rightarrow> side" where
  "side_xor_1and2 sd = side_of (side_val sd XOR (1 AND 2))"

subsection \<open>Exceptions\<close>

datatype error = KeyError | ValueError | IndexError | TypeError

subsection \<open>The state of an instance\<close>

record 'o rectangles =
  items :: "('o \<times> coords) list"
  index :: "(side \<times> (int list \<times> 'o list)) list"

text \<open>\<^verbatim>\<open>self._items = {}; self._index = {}\<close>\<close>

definition empty_rectangles :: "'o rectangles" where
  "empty_rectangles = \<lparr>items = [], index = []\<rparr>"

subsection \<open>Library functions the class calls\<close>

text \<open>
  \<^verbatim>\<open>bisect.bisect_left(a, x)\<close> and \<^verbatim>\<open>bisect.bisect_right(a, x)\<close>, as the standard library
  writes them:
  \<^verbatim>\<open>
  while lo < hi:
      mid = (lo + hi) // 2
      if a[mid] < x: lo = mid + 1      # bisect_left
      else: hi = mid
  while lo < hi:
      mid = (lo + hi) // 2
      if x < a[mid]: hi = mid          # bisect_right
      else: lo = mid + 1
  \<close>
\<close>

function bisect_left_loop :: "int list \<Rightarrow> int \<Rightarrow> nat \<Rightarrow> nat \<Rightarrow> nat" where
  "bisect_left_loop a x lo hi =
     (if lo < hi then
        (if a ! ((lo + hi) div 2) < x then bisect_left_loop a x ((lo + hi) div 2 + 1) hi
         else bisect_left_loop a x lo ((lo + hi) div 2))
      else lo)"
  by pat_completeness auto
termination
  by (relation "measure (\<lambda>(a, x, lo, hi). hi - lo)") auto

function bisect_right_loop :: "int list \<Rightarrow> int \<Rightarrow> nat \<Rightarrow> nat \<Rightarrow> nat" where
  "bisect_right_loop a x lo hi =
     (if lo < hi then
        (if x < a ! ((lo + hi) div 2) then bisect_right_loop a x lo ((lo + hi) div 2)
         else bisect_right_loop a x ((lo + hi) div 2 + 1) hi)
      else lo)"
  by pat_completeness auto
termination
  by (relation "measure (\<lambda>(a, x, lo, hi). hi - lo)") auto

definition bisect_left :: "int list \<Rightarrow> int \<Rightarrow> nat" where
  "bisect_left a x = bisect_left_loop a x 0 (length a)"

definition bisect_right :: "int list \<Rightarrow> int \<Rightarrow> nat" where
  "bisect_right a x = bisect_right_loop a x 0 (length a)"

text \<open>\<^verbatim>\<open>xs.insert(i, v)\<close>: an index past the end appends.\<close>

definition list_insert :: "nat \<Rightarrow> 'a \<Rightarrow> 'a list \<Rightarrow> 'a list" where
  "list_insert i v xs = take i xs @ v # drop i xs"

text \<open>\<^verbatim>\<open>del xs[i]\<close>, for an index in range.\<close>

definition list_del :: "nat \<Rightarrow> 'a list \<Rightarrow> 'a list" where
  "list_del i xs = take i xs @ drop (Suc i) xs"

text \<open>\<^verbatim>\<open>xs.index(v)\<close>: the first position of \<open>v\<close>; \<open>None\<close> is Python's ValueError.\<close>

fun list_index :: "'a list \<Rightarrow> 'a \<Rightarrow> nat option" where
  "list_index [] v = None"
| "list_index (y # ys) v = (if y = v then Some 0 else map_option Suc (list_index ys v))"

text \<open>
  \<^verbatim>\<open>xs[start::step]\<close> for \<^verbatim>\<open>step\<close> 1 or -1, the two values \<^verbatim>\<open>closest\<close> uses. A negative
  \<^verbatim>\<open>start\<close> counts from the end; going backwards, a start that is still negative gives the
  empty list and a start past the end begins at the last element.
\<close>

definition slice_from :: "'a list \<Rightarrow> int \<Rightarrow> int \<Rightarrow> 'a list" where
  "slice_from xs start step =
     (let n = int (length xs);
          st = (if start < 0 then start + n else start)
      in if 0 < step then drop (nat (max st 0)) xs
         else rev (take (nat (min st (n - 1) + 1)) xs))"

text \<open>
  \<^verbatim>\<open>min(iterable)\<close>: the first item is the candidate, every later item replaces it when
  \<^verbatim>\<open>item < candidate\<close>. The items come from a generator, so an item can itself raise
  when it is produced, and the comparison can raise.
\<close>

fun py_min_loop :: "('a \<Rightarrow> 'a \<Rightarrow> error + bool) \<Rightarrow> 'a \<Rightarrow> (error + 'a) list \<Rightarrow> error + 'a" where
  "py_min_loop lt best [] = Inr best"
| "py_min_loop lt best (Inl e # rest) = Inl e"
| "py_min_loop lt best (Inr item # rest) =
     (case lt item best of
        Inl e \<Rightarrow> Inl e
      | Inr b \<Rightarrow> py_min_loop lt (if b then item else best) rest)"

definition py_min :: "('a \<Rightarrow> 'a \<Rightarrow> error + bool) \<Rightarrow> (error + 'a) list \<Rightarrow> error + 'a" where
  "py_min lt xs =
     (case xs of
        [] \<Rightarrow> Inl ValueError
      | Inl e # rest \<Rightarrow> Inl e
      | Inr first # rest \<Rightarrow> py_min_loop lt first rest)"

subsection \<open>Mutation: add, bulk\_add, remove, clear\<close>

text \<open>
  \<^verbatim>\<open>
  def add(self, obj):
      if obj in self._items:
          return
      self._items[obj] = coords = self.get_coords(obj)
      for side, (indices, objects) in self._index.items():
          i = bisect.bisect_left(indices, coords[side])
          indices.insert(i, coords[side])
          objects.insert(i, obj)
  \<close>
  \<^verbatim>\<open>get_coords\<close> is the method a subclass implements; it is a parameter here.
\<close>

definition add_side ::
  "'o \<Rightarrow> coords \<Rightarrow> side \<times> (int list \<times> 'o list) \<Rightarrow> side \<times> (int list \<times> 'o list)" where
  "add_side obj cs e =
     (case e of (sd, (indices, objects)) \<Rightarrow>
        let i = bisect_left indices (coord cs sd)
        in (sd, (list_insert i (coord cs sd) indices, list_insert i obj objects)))"

definition add :: "('o \<Rightarrow> coords) \<Rightarrow> 'o rectangles \<Rightarrow> 'o \<Rightarrow> 'o rectangles" where
  "add get_coords s obj =
     (case map_of (items s) obj of
        Some _ \<Rightarrow> s
      | None \<Rightarrow>
          let cs = get_coords obj
          in \<lparr>items = AList.update obj cs (items s),
              index = map (add_side obj cs) (index s)\<rparr>)"

text \<open>
  \<^verbatim>\<open>
  def bulk_add(self, objects):
      self._items.update((obj, self.get_coords(obj)) for obj in objects)
      self._index.clear()
  \<close>
\<close>

definition bulk_add :: "('o \<Rightarrow> coords) \<Rightarrow> 'o rectangles \<Rightarrow> 'o list \<Rightarrow> 'o rectangles" where
  "bulk_add get_coords s objects =
     \<lparr>items = fold (\<lambda>obj its. AList.update obj (get_coords obj) its) objects (items s),
      index = []\<rparr>"

text \<open>\<^verbatim>\<open>__init__(self, objects=None)\<close>: \<^verbatim>\<open>if objects: self.bulk_add(objects)\<close>\<close>

definition Rectangles :: "('o \<Rightarrow> coords) \<Rightarrow> 'o list \<Rightarrow> 'o rectangles" where
  "Rectangles get_coords objects =
     (if objects \<noteq> [] then bulk_add get_coords empty_rectangles objects else empty_rectangles)"

text \<open>
  \<^verbatim>\<open>
  def remove(self, obj):
      del self._items[obj]
      for indices, objects in self._index.values():
          i = objects.index(obj)
          del objects[i]
          del indices[i]
  \<close>
  The loop mutates the lists of one side after the other; an exception leaves the sides
  already visited changed.
\<close>

fun remove_loop ::
  "'o \<Rightarrow> (side \<times> (int list \<times> 'o list)) list \<Rightarrow>
     (error + unit) \<times> (side \<times> (int list \<times> 'o list)) list" where
  "remove_loop obj [] = (Inr (), [])"
| "remove_loop obj ((sd, (indices, objects)) # rest) =
     (case list_index objects obj of
        None \<Rightarrow> (Inl ValueError, (sd, (indices, objects)) # rest)
      | Some i \<Rightarrow>
          if i < length indices then
            (case remove_loop obj rest of
               (r, rest') \<Rightarrow> (r, (sd, (list_del i indices, list_del i objects)) # rest'))
          else (Inl IndexError, (sd, (indices, list_del i objects)) # rest))"

definition remove :: "'o rectangles \<Rightarrow> 'o \<Rightarrow> (error + unit) \<times> 'o rectangles" where
  "remove s obj =
     (case map_of (items s) obj of
        None \<Rightarrow> (Inl KeyError, s)
      | Some _ \<Rightarrow>
          (case remove_loop obj (index s) of
             (r, idx) \<Rightarrow> (r, \<lparr>items = AList.delete obj (items s), index = idx\<rparr>)))"

text \<open>\<^verbatim>\<open>def clear(self): self._items.clear(); self._index.clear()\<close>\<close>

definition clear :: "'o rectangles \<Rightarrow> 'o rectangles" where
  "clear s = \<lparr>items = [], index = []\<rparr>"

text \<open>\<^verbatim>\<open>__len__\<close> and \<^verbatim>\<open>__contains__\<close>\<close>

definition len :: "'o rectangles \<Rightarrow> nat" where
  "len s = length (items s)"

definition contains :: "'o rectangles \<Rightarrow> 'o \<Rightarrow> bool" where
  "contains s obj = (map_of (items s) obj \<noteq> None)"

subsection \<open>The lazily built side indices and the range queries\<close>

text \<open>
  \<^verbatim>\<open>
  def _sorted(self, side):
      try:
          return self._index[side]
      except KeyError:
          if self._items:
              objects = [(coords[side], obj) for obj, coords in self._items.items()]
              objects.sort(key=operator.itemgetter(0))
              result = tuple(map(list, zip(*objects)))
          else:
              result = [], []
          self._index[side] = result
          return result
  \<close>
  \<^verbatim>\<open>list.sort\<close> is stable, as \<open>sort_key\<close> is.
\<close>

definition build_side :: "('o \<times> coords) list \<Rightarrow> side \<Rightarrow> int list \<times> 'o list" where
  "build_side its sd =
     (if its \<noteq> [] then
        (let objects = sort_key fst (map (\<lambda>(obj, cs). (coord cs sd, obj)) its)
         in (map fst objects, map snd objects))
      else ([], []))"

definition priv_sorted ::
  "'o rectangles \<Rightarrow> side \<Rightarrow> (int list \<times> 'o list) \<times> 'o rectangles" where
  "priv_sorted s sd =
     (case map_of (index s) sd of
        Some r \<Rightarrow> (r, s)
      | None \<Rightarrow>
          (let result = build_side (items s) sd
           in (result, s\<lparr>index := AList.update sd result (index s)\<rparr>)))"

text \<open>
  \<^verbatim>\<open>
  def _smaller(self, side, value):
      indices, objects = self._sorted(side)
      i = bisect.bisect_right(indices, value)
      return objects[:i]

  def _larger(self, side, value):
      indices, objects = self._sorted(side)
      i = bisect.bisect_left(indices, value)
      return objects[i:]
  \<close>
\<close>

definition priv_smaller :: "'o rectangles \<Rightarrow> side \<Rightarrow> int \<Rightarrow> 'o list \<times> 'o rectangles" where
  "priv_smaller s sd v =
     (case priv_sorted s sd of
        ((indices, objects), s') \<Rightarrow> (take (bisect_right indices v) objects, s'))"

definition priv_larger :: "'o rectangles \<Rightarrow> side \<Rightarrow> int \<Rightarrow> 'o list \<times> 'o rectangles" where
  "priv_larger s sd v =
     (case priv_sorted s sd of
        ((indices, objects), s') \<Rightarrow> (drop (bisect_left indices v) objects, s'))"

text \<open>
  A test is the triple \<^verbatim>\<open>(method, side, value)\<close>, the method being \<^verbatim>\<open>self._smaller\<close> or
  \<^verbatim>\<open>self._larger\<close>.
  \<^verbatim>\<open>
  def _test(self, *tests):
      meth, side, value = tests[0]
      result = set(meth(side, value))
      if result:
          for meth, side, value in tests[1:]:
              result &= set(meth(side, value))
              if not result:
                  break
      return result
  \<close>
  Every call in the class passes at least one test: the first is an argument of its own.
\<close>

datatype meth = Smaller | Larger

type_synonym test = "meth \<times> side \<times> int"

fun call_meth :: "'o rectangles \<Rightarrow> test \<Rightarrow> 'o list \<times> 'o rectangles" where
  "call_meth s (Smaller, sd, v) = priv_smaller s sd v"
| "call_meth s (Larger, sd, v) = priv_larger s sd v"

fun test_loop :: "'o rectangles \<Rightarrow> 'o set \<Rightarrow> test list \<Rightarrow> 'o set \<times> 'o rectangles" where
  "test_loop s result [] = (result, s)"
| "test_loop s result (t # ts) =
     (case call_meth s t of
        (objs, s') \<Rightarrow>
          if result \<inter> set objs = {} then (result \<inter> set objs, s')
          else test_loop s' (result \<inter> set objs) ts)"

definition priv_test :: "'o rectangles \<Rightarrow> test \<Rightarrow> test list \<Rightarrow> 'o set \<times> 'o rectangles" where
  "priv_test s t0 ts =
     (case call_meth s t0 of
        (objs, s') \<Rightarrow> if set objs \<noteq> {} then test_loop s' (set objs) ts else (set objs, s'))"

text \<open>
  \<^verbatim>\<open>
  def at(self, x, y):
      return self._test((self._smaller, Top, y), (self._larger, Bottom, y),
                        (self._smaller, Left, x), (self._larger, Right, x))
  def inside(self, left, top, right, bottom):
      return self._test((self._larger, Top, top), (self._smaller, Bottom, bottom),
                        (self._larger, Left, left), (self._smaller, Right, right))
  def intersecting(self, left, top, right, bottom):
      return self._test((self._smaller, Top, bottom), (self._larger, Bottom, top),
                        (self._smaller, Left, right), (self._larger, Right, left))
  \<close>
  (\<open>at\<close> is a keyword of the library's filters, so the method \<^verbatim>\<open>at\<close> is \<open>at_point\<close>
  here; the arguments \<^verbatim>\<open>left, top, right, bottom\<close> are \<open>l t r b\<close>.)
\<close>

definition at_point :: "'o rectangles \<Rightarrow> int \<Rightarrow> int \<Rightarrow> 'o set \<times> 'o rectangles" where
  "at_point s x y =
     priv_test s (Smaller, Top, y) [(Larger, Bottom, y), (Smaller, Left, x), (Larger, Right, x)]"

definition inside ::
  "'o rectangles \<Rightarrow> int \<Rightarrow> int \<Rightarrow> int \<Rightarrow> int \<Rightarrow> 'o set \<times> 'o rectangles" where
  "inside s l t r b =
     priv_test s (Larger, Top, t) [(Smaller, Bottom, b), (Larger, Left, l), (Smaller, Right, r)]"

definition intersecting ::
  "'o rectangles \<Rightarrow> int \<Rightarrow> int \<Rightarrow> int \<Rightarrow> int \<Rightarrow> 'o set \<times> 'o rectangles" where
  "intersecting s l t r b =
     priv_test s (Smaller, Top, b) [(Larger, Bottom, t), (Smaller, Left, r), (Larger, Right, l)]"

text \<open>
  \<^verbatim>\<open>
  def width(self, obj):
      coords = self._items[obj]
      return coords[Right] - coords[Left]
  def height(self, obj):
      coords = self._items[obj]
      return coords[Bottom] - coords[Top]
  \<close>
\<close>

definition width :: "'o rectangles \<Rightarrow> 'o \<Rightarrow> error + int" where
  "width s obj =
     (case map_of (items s) obj of
        None \<Rightarrow> Inl KeyError
      | Some cs \<Rightarrow> Inr (coord cs Right - coord cs Left))"

definition height :: "'o rectangles \<Rightarrow> 'o \<Rightarrow> error + int" where
  "height s obj =
     (case map_of (items s) obj of
        None \<Rightarrow> Inl KeyError
      | Some cs \<Rightarrow> Inr (coord cs Bottom - coord cs Top))"

subsection \<open>closest\<close>

text \<open>
  \<^verbatim>\<open>
  def closest(self, obj, side):
      coords = self._items[obj]
      pos = coords[side^2]
      lat = (coords[side^1|2] - coords[side^1&2]) / 2.0
      direction = -1 if side < Right else 1
      indices, objects = self._sorted(side^2)
      i = objects.index(obj)
      mindist = indices[-1]
      result = []
      for other in objects[i+direction::direction]:
          coords = self._items[other]
          pos1 = coords[side^2]
          d = abs(pos1 - pos)
          if d > mindist:
              break
          lat1 = (coords[side^1|2] - coords[side^1&2]) / 2.0
          dlat = abs(lat1 - lat)
          if dlat < d:
              dist = dlat + d  # manhattan dist
              result.append((other, dist))
              mindist = min(mindist, dist)
      if result:
          result.sort(key=lambda r: r[1])
          return result[0][0]
  \<close>
\<close>

definition lateral :: "coords \<Rightarrow> side \<Rightarrow> rat" where
  "lateral cs sd = of_int (coord cs (side_xor1_or2 sd) - coord cs (side_xor_1and2 sd)) / 2"

fun closest_loop ::
  "('o \<times> coords) list \<Rightarrow> side \<Rightarrow> int \<Rightarrow> rat \<Rightarrow> rat \<Rightarrow> ('o \<times> rat) list \<Rightarrow> 'o list \<Rightarrow>
     error + ('o \<times> rat) list" where
  "closest_loop its sd pos lat mindist result [] = Inr result"
| "closest_loop its sd pos lat mindist result (other # rest) =
     (case map_of its other of
        None \<Rightarrow> Inl KeyError
      | Some cs \<Rightarrow>
          if of_int \<bar>coord cs (side_xor2 sd) - pos\<bar> > mindist then Inr result
          else if \<bar>lateral cs sd - lat\<bar> < of_int \<bar>coord cs (side_xor2 sd) - pos\<bar> then
            closest_loop its sd pos lat
              (min mindist (\<bar>lateral cs sd - lat\<bar> + of_int \<bar>coord cs (side_xor2 sd) - pos\<bar>))
              (result @ [(other, \<bar>lateral cs sd - lat\<bar> + of_int \<bar>coord cs (side_xor2 sd) - pos\<bar>)])
              rest
          else closest_loop its sd pos lat mindist result rest)"

text \<open>
  The part of \<^verbatim>\<open>closest\<close> after the call of \<^verbatim>\<open>_sorted\<close>, which is where the state is
  last changed: \<open>cs\<close> is \<^verbatim>\<open>self._items[obj]\<close> and \<open>(indices, objects)\<close> the side index
  \<^verbatim>\<open>_sorted\<close> returned.
\<close>

definition closest_scan ::
  "('o \<times> coords) list \<Rightarrow> coords \<Rightarrow> 'o \<Rightarrow> side \<Rightarrow> int list \<Rightarrow> 'o list \<Rightarrow> error + 'o option" where
  "closest_scan its cs obj sd indices objects =
     (let pos = coord cs (side_xor2 sd);
          lat = lateral cs sd;
          direction = (if side_val sd < side_val Right then - 1 else 1 :: int)
      in case list_index objects obj of
           None \<Rightarrow> Inl ValueError
         | Some i \<Rightarrow>
             if indices = [] then Inl IndexError
             else
               (case closest_loop its sd pos lat (of_int (last indices)) []
                       (slice_from objects (int i + direction) direction) of
                  Inl e \<Rightarrow> Inl e
                | Inr result \<Rightarrow>
                    (case sort_key snd result of
                       [] \<Rightarrow> Inr None
                     | r # _ \<Rightarrow> Inr (Some (fst r)))))"

definition closest ::
  "'o rectangles \<Rightarrow> 'o \<Rightarrow> side \<Rightarrow> (error + 'o option) \<times> 'o rectangles" where
  "closest s obj sd =
     (case map_of (items s) obj of
        None \<Rightarrow> (Inl KeyError, s)
      | Some cs \<Rightarrow>
          (case priv_sorted s (side_xor2 sd) of
             ((indices, objects), s') \<Rightarrow>
               (closest_scan (items s') cs obj sd indices objects, s')))"

subsection \<open>nearest\<close>

text \<open>
  \<^verbatim>\<open>
  def nearest(self, x, y):
      i = self._items
      rmid = self._test((self._smaller, Top, y), (self._larger, Bottom, y))
      cmid = self._test((self._smaller, Left, x), (self._larger, Right, x))
      mid = rmid & cmid
      if mid:
          def center_distance(obj):
              left, top, right, bottom = i[obj]
              centerx = (right  + left) / 2
              centery = (bottom + top)  / 2
              return abs(centerx - x) + abs(centery - y)  # manhattan dist
          return min(mid, key=center_distance)
      cleft = set(self._larger(Left, x))
      cright = set(self._smaller(Right, x))
      rtop = set(self._larger(Top, y))
      rbottom = set(self._smaller(Bottom, y))
      left =        lambda o: i[o][Left] - x
      right =       lambda o: x - i[o][Right]
      top =         lambda o: i[o][Top] - y
      bottom =      lambda o: y - i[o][Bottom]
      topleft =     lambda o: top(o) + left(o)
      topright =    lambda o: top(o) + right(o)
      bottomleft =  lambda o: bottom(o) + left(o)
      bottomright = lambda o: bottom(o) + right(o)
      result = [min((dist(o), o) for o in objs)
          for dist, objs in (
          (left, cleft & rmid),          (right, cright & rmid),
          (top, rtop & cmid),            (bottom, rbottom & cmid),
          (topleft, cleft & rtop),       (topright, cright & rtop),
          (bottomleft, cleft & rbottom), (bottomright, cright & rbottom),
          ) if objs]
      if result:
          return min(result)[1]
  \<close>
  Two things of Python are parameters of the model. \<open>set_iter\<close> is the order in which a
  set is iterated, which depends on the objects' hashes. \<open>obj_lt\<close> is the objects'
  \<^verbatim>\<open>__lt__\<close>: \<open>None\<close> for objects that do not define an order, for which Python raises
  TypeError at \<^verbatim>\<open><\<close>. The second and third \<^verbatim>\<open>min\<close> compare tuples
  \<^verbatim>\<open>(distance, object)\<close>: Python compares the distances and, when they are equal and
  the objects differ, the objects.
\<close>

definition obj_less :: "('o \<Rightarrow> 'o \<Rightarrow> bool) option \<Rightarrow> 'o \<Rightarrow> 'o \<Rightarrow> error + bool" where
  "obj_less obj_lt a b = (case obj_lt of None \<Rightarrow> Inl TypeError | Some f \<Rightarrow> Inr (f a b))"

definition tuple_less ::
  "('o \<Rightarrow> 'o \<Rightarrow> bool) option \<Rightarrow> int \<times> 'o \<Rightarrow> int \<times> 'o \<Rightarrow> error + bool" where
  "tuple_less obj_lt p q =
     (if fst p \<noteq> fst q then Inr (fst p < fst q)
      else if snd p = snd q then Inr False
      else obj_less obj_lt (snd p) (snd q))"

text \<open>\<^verbatim>\<open>min(iterable, key=f)\<close> compares the keys only.\<close>

definition py_min_key :: "('a \<Rightarrow> error + rat) \<Rightarrow> 'a list \<Rightarrow> error + 'a" where
  "py_min_key key xs =
     (case py_min (\<lambda>p q. Inr (fst p < fst q))
             (map (\<lambda>obj. case key obj of Inl e \<Rightarrow> Inl e | Inr k \<Rightarrow> Inr (k, obj)) xs) of
        Inl e \<Rightarrow> Inl e
      | Inr p \<Rightarrow> Inr (snd p))"

definition center_distance :: "('o \<times> coords) list \<Rightarrow> int \<Rightarrow> int \<Rightarrow> 'o \<Rightarrow> error + rat" where
  "center_distance its x y obj =
     (case map_of its obj of
        None \<Rightarrow> Inl KeyError
      | Some (l, t, r, b) \<Rightarrow>
          Inr (\<bar>of_int (r + l) / 2 - of_int x\<bar> + \<bar>of_int (b + t) / 2 - of_int y\<bar>))"

text \<open>\<^verbatim>\<open>i[o][side]\<close>\<close>

definition item_coord :: "('o \<times> coords) list \<Rightarrow> 'o \<Rightarrow> side \<Rightarrow> error + int" where
  "item_coord its obj sd =
     (case map_of its obj of None \<Rightarrow> Inl KeyError | Some cs \<Rightarrow> Inr (coord cs sd))"

definition dist_left :: "('o \<times> coords) list \<Rightarrow> int \<Rightarrow> 'o \<Rightarrow> error + int" where
  "dist_left its x obj =
     (case item_coord its obj Left of Inl e \<Rightarrow> Inl e | Inr c \<Rightarrow> Inr (c - x))"

definition dist_right :: "('o \<times> coords) list \<Rightarrow> int \<Rightarrow> 'o \<Rightarrow> error + int" where
  "dist_right its x obj =
     (case item_coord its obj Right of Inl e \<Rightarrow> Inl e | Inr c \<Rightarrow> Inr (x - c))"

definition dist_top :: "('o \<times> coords) list \<Rightarrow> int \<Rightarrow> 'o \<Rightarrow> error + int" where
  "dist_top its y obj =
     (case item_coord its obj Top of Inl e \<Rightarrow> Inl e | Inr c \<Rightarrow> Inr (c - y))"

definition dist_bottom :: "('o \<times> coords) list \<Rightarrow> int \<Rightarrow> 'o \<Rightarrow> error + int" where
  "dist_bottom its y obj =
     (case item_coord its obj Bottom of Inl e \<Rightarrow> Inl e | Inr c \<Rightarrow> Inr (y - c))"

definition dist_sum :: "('o \<Rightarrow> error + int) \<Rightarrow> ('o \<Rightarrow> error + int) \<Rightarrow> 'o \<Rightarrow> error + int" where
  "dist_sum f g obj =
     (case f obj of
        Inl e \<Rightarrow> Inl e
      | Inr a \<Rightarrow> (case g obj of Inl e \<Rightarrow> Inl e | Inr b \<Rightarrow> Inr (a + b)))"

text \<open>The list comprehension: one minimum per non-empty candidate set, in order.\<close>

fun nearest_mins ::
  "('o \<Rightarrow> 'o \<Rightarrow> bool) option \<Rightarrow> ('o set \<Rightarrow> 'o list) \<Rightarrow> (('o \<Rightarrow> error + int) \<times> 'o set) list \<Rightarrow>
     error + (int \<times> 'o) list" where
  "nearest_mins obj_lt set_iter [] = Inr []"
| "nearest_mins obj_lt set_iter ((dst, objs) # rest) =
     (if objs \<noteq> {} then
        (case py_min (tuple_less obj_lt)
                (map (\<lambda>obj. case dst obj of Inl e \<Rightarrow> Inl e | Inr d \<Rightarrow> Inr (d, obj))
                   (set_iter objs)) of
           Inl e \<Rightarrow> Inl e
         | Inr m \<Rightarrow>
             (case nearest_mins obj_lt set_iter rest of
                Inl e \<Rightarrow> Inl e
              | Inr ms \<Rightarrow> Inr (m # ms)))
      else nearest_mins obj_lt set_iter rest)"

text \<open>The two ways \<^verbatim>\<open>nearest\<close> ends, once the candidate sets are there.\<close>

definition nearest_mid ::
  "('o set \<Rightarrow> 'o list) \<Rightarrow> ('o \<times> coords) list \<Rightarrow> int \<Rightarrow> int \<Rightarrow> 'o set \<Rightarrow> error + 'o option" where
  "nearest_mid set_iter its x y mid =
     (case py_min_key (center_distance its x y) (set_iter mid) of
        Inl e \<Rightarrow> Inl e
      | Inr obj \<Rightarrow> Inr (Some obj))"

definition nearest_sides ::
  "('o \<Rightarrow> 'o \<Rightarrow> bool) option \<Rightarrow> ('o set \<Rightarrow> 'o list) \<Rightarrow> ('o \<times> coords) list \<Rightarrow> int \<Rightarrow> int \<Rightarrow>
     'o set \<Rightarrow> 'o set \<Rightarrow> 'o set \<Rightarrow> 'o set \<Rightarrow> 'o set \<Rightarrow> 'o set \<Rightarrow> error + 'o option" where
  "nearest_sides obj_lt set_iter its x y rmid cmid cleft cright rtop rbottom =
     (case nearest_mins obj_lt set_iter
             [(dist_left its x, cleft \<inter> rmid),
              (dist_right its x, cright \<inter> rmid),
              (dist_top its y, rtop \<inter> cmid),
              (dist_bottom its y, rbottom \<inter> cmid),
              (dist_sum (dist_top its y) (dist_left its x), cleft \<inter> rtop),
              (dist_sum (dist_top its y) (dist_right its x), cright \<inter> rtop),
              (dist_sum (dist_bottom its y) (dist_left its x), cleft \<inter> rbottom),
              (dist_sum (dist_bottom its y) (dist_right its x), cright \<inter> rbottom)] of
        Inl e \<Rightarrow> Inl e
      | Inr [] \<Rightarrow> Inr None
      | Inr (m # ms) \<Rightarrow>
          (case py_min (tuple_less obj_lt) (map Inr (m # ms)) of
             Inl e \<Rightarrow> Inl e
           | Inr p \<Rightarrow> Inr (Some (snd p))))"

definition nearest ::
  "('o \<Rightarrow> 'o \<Rightarrow> bool) option \<Rightarrow> ('o set \<Rightarrow> 'o list) \<Rightarrow> 'o rectangles \<Rightarrow> int \<Rightarrow> int \<Rightarrow>
     (error + 'o option) \<times> 'o rectangles" where
  "nearest obj_lt set_iter s x y =
     (case priv_test s (Smaller, Top, y) [(Larger, Bottom, y)] of (rmid, s1) \<Rightarrow>
      case priv_test s1 (Smaller, Left, x) [(Larger, Right, x)] of (cmid, s2) \<Rightarrow>
        if rmid \<inter> cmid \<noteq> {} then (nearest_mid set_iter (items s2) x y (rmid \<inter> cmid), s2)
        else
          (case priv_larger s2 Left x of (cleft, s3) \<Rightarrow>
           case priv_smaller s3 Right x of (cright, s4) \<Rightarrow>
           case priv_larger s4 Top y of (rtop, s5) \<Rightarrow>
           case priv_smaller s5 Bottom y of (rbottom, s6) \<Rightarrow>
             (nearest_sides obj_lt set_iter (items s6) x y rmid cmid
                (set cleft) (set cright) (set rtop) (set rbottom), s6)))"

subsection \<open>Well-formed states\<close>

text \<open>
  What the class maintains about a side index \<open>(indices, objects)\<close> that is present: both
  lists have one entry per stored item, the objects are exactly the stored ones, the
  coordinates ascend, and each coordinate is the one stored for the object beside it.
\<close>

definition index_ok :: "('o \<times> coords) list \<Rightarrow> side \<Rightarrow> int list \<times> 'o list \<Rightarrow> bool" where
  "index_ok its sd e =
     (case e of (indices, objects) \<Rightarrow>
        length indices = length its \<and> length objects = length its \<and>
        set objects = fst ` set its \<and> sorted indices \<and>
        list_all2 (\<lambda>obj c. map_option (\<lambda>cs. coord cs sd) (map_of its obj) = Some c)
          objects indices)"

text \<open>
  A state of an instance: the two association lists are dictionaries (no key twice), and
  every side index that is present is as above.
\<close>

definition invariant :: "'o rectangles \<Rightarrow> bool" where
  "invariant s =
     (distinct (map fst (items s)) \<and> distinct (map fst (index s)) \<and>
      (\<forall>(sd, e) \<in> set (index s). index_ok (items s) sd e))"

text \<open>
  The states an instance can be in: the constructor's, and the state any method leaves,
  whether it returns or raises.
\<close>

inductive reachable :: "('o \<Rightarrow> coords) \<Rightarrow> 'o rectangles \<Rightarrow> bool" for get_coords where
  r_init: "reachable get_coords (Rectangles get_coords objects)"
| r_add: "reachable get_coords s \<Longrightarrow> reachable get_coords (add get_coords s obj)"
| r_bulk_add: "reachable get_coords s \<Longrightarrow> reachable get_coords (bulk_add get_coords s objects)"
| r_remove: "reachable get_coords s \<Longrightarrow> reachable get_coords (snd (remove s obj))"
| r_clear: "reachable get_coords s \<Longrightarrow> reachable get_coords (clear s)"
| r_at: "reachable get_coords s \<Longrightarrow> reachable get_coords (snd (at_point s x y))"
| r_inside: "reachable get_coords s \<Longrightarrow> reachable get_coords (snd (inside s l t r b))"
| r_intersecting:
    "reachable get_coords s \<Longrightarrow> reachable get_coords (snd (intersecting s l t r b))"
| r_nearest:
    "reachable get_coords s \<Longrightarrow> reachable get_coords (snd (nearest obj_lt set_iter s x y))"
| r_closest: "reachable get_coords s \<Longrightarrow> reachable get_coords (snd (closest s obj sd))"

text \<open>
  The stored objects whose coordinate on a side is at most, or at least, a value: what
  \<^verbatim>\<open>_smaller\<close> and \<^verbatim>\<open>_larger\<close> are meant to select.
\<close>

definition sel_le :: "('o \<times> coords) list \<Rightarrow> side \<Rightarrow> int \<Rightarrow> 'o set" where
  "sel_le its sd v = {obj. \<exists>cs. map_of its obj = Some cs \<and> coord cs sd \<le> v}"

definition sel_ge :: "('o \<times> coords) list \<Rightarrow> side \<Rightarrow> int \<Rightarrow> 'o set" where
  "sel_ge its sd v = {obj. \<exists>cs. map_of its obj = Some cs \<and> v \<le> coord cs sd}"

fun test_set :: "('o \<times> coords) list \<Rightarrow> test \<Rightarrow> 'o set" where
  "test_set its (Smaller, sd, v) = sel_le its sd v"
| "test_set its (Larger, sd, v) = sel_ge its sd v"

text \<open>
  Two properties of a comparison passed to \<open>py_min\<close>: it raises nothing but TypeError,
  or it raises nothing at all.
\<close>

definition only_type_error :: "('a \<Rightarrow> 'a \<Rightarrow> error + bool) \<Rightarrow> bool" where
  "only_type_error lt = (\<forall>a b. lt a b = Inl TypeError \<or> (\<exists>r. lt a b = Inr r))"

definition never_raises :: "('a \<Rightarrow> 'a \<Rightarrow> error + bool) \<Rightarrow> bool" where
  "never_raises lt = (\<forall>a b. \<exists>r. lt a b = Inr r)"

subsection \<open>The example of the specification\<close>

text \<open>
  Objects are identified by numbers: object 0 is \<open>A = (0, 0, 10, 10)\<close>, object 1 is
  \<open>B = (20, 20, 30, 30)\<close>, and object 2 is a rectangle whose left and right sides tie with
  those of \<open>A\<close>.
\<close>

definition ex_coords :: "nat \<Rightarrow> coords" where
  "ex_coords n = (if n = 0 then (0, 0, 10, 10) else if n = 1 then (20, 20, 30, 30)
                  else (0, 5, 10, 15))"

text \<open>\<open>A\<close> and \<open>B\<close> added in bulk: no side index is built.\<close>

definition ex_bulk :: "nat rectangles" where
  "ex_bulk = Rectangles ex_coords [0, 1]"

text \<open>\<open>A\<close> added, a query that builds the four side indices, then \<open>B\<close> added.\<close>

definition ex_built :: "nat rectangles" where
  "ex_built = add ex_coords (snd (at_point (add ex_coords (Rectangles ex_coords []) 0) 5 5)) 1"

section \<open>Properties\<close>

subsection \<open>Binary search on a sorted list\<close>

declare bisect_left_loop.simps [simp del] bisect_right_loop.simps [simp del]

lemma bisect_left_loop_spec:
  assumes "sorted a" "lo \<le> hi" "hi \<le> length a"
    and "\<forall>j<lo. a ! j < x" and "\<forall>j. hi \<le> j \<and> j < length a \<longrightarrow> x \<le> a ! j"
  shows "lo \<le> bisect_left_loop a x lo hi \<and> bisect_left_loop a x lo hi \<le> hi \<and>
         (\<forall>j<bisect_left_loop a x lo hi. a ! j < x) \<and>
         (\<forall>j. bisect_left_loop a x lo hi \<le> j \<and> j < length a \<longrightarrow> x \<le> a ! j)"
  using assms
proof (induction a x lo hi rule: bisect_left_loop.induct)
  case (1 a x lo hi)
  let ?mid = "(lo + hi) div 2"
  show ?case
  proof (cases "lo < hi")
    case False
    with "1.prems" have "lo = hi" by simp
    with "1.prems" show ?thesis by (simp add: bisect_left_loop.simps)
  next
    case True
    then have mid: "lo \<le> ?mid" "?mid < hi" by simp_all
    show ?thesis
    proof (cases "a ! ?mid < x")
      case lt: True
      have below: "\<forall>j<?mid + 1. a ! j < x"
      proof (intro allI impI)
        fix j assume "j < ?mid + 1"
        then have "j \<le> ?mid" by simp
        moreover have "?mid < length a" using mid "1.prems"(3) by linarith
        ultimately have "a ! j \<le> a ! ?mid" using "1.prems"(1) by (simp add: sorted_nth_mono)
        with lt show "a ! j < x" by simp
      qed
      have "?mid + 1 \<le> hi" using mid by simp
      from "1.IH"(1)[OF True lt "1.prems"(1) this "1.prems"(3) below "1.prems"(5)]
      show ?thesis using True lt mid by (subst (1 2 3 4) bisect_left_loop.simps) simp
    next
      case ge: False
      have above: "\<forall>j. ?mid \<le> j \<and> j < length a \<longrightarrow> x \<le> a ! j"
      proof (intro allI impI)
        fix j assume "?mid \<le> j \<and> j < length a"
        then have "a ! ?mid \<le> a ! j" using "1.prems"(1) by (simp add: sorted_nth_mono)
        with ge show "x \<le> a ! j" by simp
      qed
      have "?mid \<le> length a" using mid "1.prems"(3) by linarith
      from "1.IH"(2)[OF True ge "1.prems"(1) mid(1) this "1.prems"(4) above]
      show ?thesis using True ge mid by (subst (1 2 3 4) bisect_left_loop.simps) simp
    qed
  qed
qed

lemma bisect_right_loop_spec:
  assumes "sorted a" "lo \<le> hi" "hi \<le> length a"
    and "\<forall>j<lo. a ! j \<le> x" and "\<forall>j. hi \<le> j \<and> j < length a \<longrightarrow> x < a ! j"
  shows "lo \<le> bisect_right_loop a x lo hi \<and> bisect_right_loop a x lo hi \<le> hi \<and>
         (\<forall>j<bisect_right_loop a x lo hi. a ! j \<le> x) \<and>
         (\<forall>j. bisect_right_loop a x lo hi \<le> j \<and> j < length a \<longrightarrow> x < a ! j)"
  using assms
proof (induction a x lo hi rule: bisect_right_loop.induct)
  case (1 a x lo hi)
  let ?mid = "(lo + hi) div 2"
  show ?case
  proof (cases "lo < hi")
    case False
    with "1.prems" have "lo = hi" by simp
    with "1.prems" show ?thesis by (simp add: bisect_right_loop.simps)
  next
    case True
    then have mid: "lo \<le> ?mid" "?mid < hi" by simp_all
    show ?thesis
    proof (cases "x < a ! ?mid")
      case lt: True
      have above: "\<forall>j. ?mid \<le> j \<and> j < length a \<longrightarrow> x < a ! j"
      proof (intro allI impI)
        fix j assume "?mid \<le> j \<and> j < length a"
        then have "a ! ?mid \<le> a ! j" using "1.prems"(1) by (simp add: sorted_nth_mono)
        with lt show "x < a ! j" by simp
      qed
      have "?mid \<le> length a" using mid "1.prems"(3) by linarith
      from "1.IH"(1)[OF True lt "1.prems"(1) mid(1) this "1.prems"(4) above]
      show ?thesis using True lt mid by (subst (1 2 3 4) bisect_right_loop.simps) simp
    next
      case ge: False
      have below: "\<forall>j<?mid + 1. a ! j \<le> x"
      proof (intro allI impI)
        fix j assume "j < ?mid + 1"
        then have "j \<le> ?mid" by simp
        moreover have "?mid < length a" using mid "1.prems"(3) by linarith
        ultimately have "a ! j \<le> a ! ?mid" using "1.prems"(1) by (simp add: sorted_nth_mono)
        with ge show "a ! j \<le> x" by simp
      qed
      have "?mid + 1 \<le> hi" using mid by simp
      from "1.IH"(2)[OF True ge "1.prems"(1) this "1.prems"(3) below "1.prems"(5)]
      show ?thesis using True ge mid by (subst (1 2 3 4) bisect_right_loop.simps) simp
    qed
  qed
qed

lemma bisect_left_spec:
  assumes "sorted a"
  shows "bisect_left a x \<le> length a"
    and "\<And>j. j < bisect_left a x \<Longrightarrow> a ! j < x"
    and "\<And>j. bisect_left a x \<le> j \<Longrightarrow> j < length a \<Longrightarrow> x \<le> a ! j"
  using bisect_left_loop_spec[of a 0 "length a" x] assms by (simp_all add: bisect_left_def)

lemma bisect_right_spec:
  assumes "sorted a"
  shows "bisect_right a x \<le> length a"
    and "\<And>j. j < bisect_right a x \<Longrightarrow> a ! j \<le> x"
    and "\<And>j. bisect_right a x \<le> j \<Longrightarrow> j < length a \<Longrightarrow> x < a ! j"
  using bisect_right_loop_spec[of a 0 "length a" x] assms by (simp_all add: bisect_right_def)

subsection \<open>Side indices and the range selections\<close>

lemma update_fresh: "k \<notin> fst ` set al \<Longrightarrow> AList.update k v al = al @ [(k, v)]"
  by (induction al) auto

lemma map_of_fresh: "map_of al k = None \<longleftrightarrow> k \<notin> fst ` set al"
  by (simp add: map_of_eq_None_iff)

lemma build_side_ok:
  assumes "distinct (map fst its)"
  shows "index_ok its sd (build_side its sd)"
proof (cases "its = []")
  case True
  then show ?thesis by (simp add: build_side_def index_ok_def)
next
  case False
  let ?f = "\<lambda>(obj, cs). (coord cs sd, obj)"
  let ?ps = "sort_key fst (map ?f its)"
  have b: "build_side its sd = (map fst ?ps, map snd ?ps)"
    using False by (simp add: build_side_def Let_def)
  have len: "length ?ps = length its" by simp
  have setps: "set ?ps = ?f ` set its" by simp
  have s1: "set (map snd ?ps) = fst ` set its"
    unfolding set_map setps by force
  have s2: "sorted (map fst ?ps)" by (rule sorted_sort_key)
  have al: "\<forall>p\<in>set ?ps. map_option (\<lambda>cs. coord cs sd) (map_of its (snd p)) = Some (fst p)"
  proof
    fix p assume "p \<in> set ?ps"
    then obtain obj cs where oc: "(obj, cs) \<in> set its" and p: "p = (coord cs sd, obj)"
      unfolding setps by auto
    from assms oc have "map_of its obj = Some cs" by (rule map_of_is_SomeI)
    with p show "map_option (\<lambda>cs. coord cs sd) (map_of its (snd p)) = Some (fst p)" by simp
  qed
  then have s3: "list_all2 (\<lambda>obj c. map_option (\<lambda>cs. coord cs sd) (map_of its obj) = Some c)
          (map snd ?ps) (map fst ?ps)"
    by (simp add: list_all2_map1 list_all2_map2 list_all2_same)
  show ?thesis unfolding b index_ok_def using len s1 s2 s3 by simp
qed

lemma priv_sorted_inv:
  assumes "invariant s" and "priv_sorted s sd = (e, s')"
  shows "invariant s' \<and> items s' = items s \<and> index_ok (items s) sd e"
proof (cases "map_of (index s) sd")
    case (Some r)
    with assms(2) have "e = r" "s' = s" by (simp_all add: priv_sorted_def)
    moreover from Some have "(sd, r) \<in> set (index s)" by (rule map_of_SomeD)
    ultimately show ?thesis using assms(1) by (auto simp: invariant_def)
  next
    case None
    then have fresh: "sd \<notin> fst ` set (index s)" by (simp add: map_of_eq_None_iff)
    from None assms(2) have e: "e = build_side (items s) sd"
      and s': "s' = s\<lparr>index := AList.update sd e (index s)\<rparr>"
      by (auto simp: priv_sorted_def Let_def)
    have ok: "index_ok (items s) sd e" unfolding e
      using assms(1) by (intro build_side_ok) (simp add: invariant_def)
    have "invariant s'"
      using assms(1) ok fresh unfolding s' invariant_def by (auto simp: update_fresh)
    with ok s' show ?thesis by simp
qed


lemma index_ok_nth:
  assumes "index_ok its sd (indices, objects)" and "j < length objects"
  shows "\<exists>cs. map_of its (objects ! j) = Some cs \<and> coord cs sd = indices ! j"
proof -
  from assms(1) have "list_all2 (\<lambda>obj c. map_option (\<lambda>cs. coord cs sd) (map_of its obj) = Some c)
          objects indices" by (simp add: index_ok_def)
  from list_all2_nthD[OF this assms(2)] show ?thesis by auto
qed

lemma index_ok_smaller:
  assumes ok: "index_ok its sd (indices, objects)"
  shows "set (take (bisect_right indices v) objects) = sel_le its sd v"
proof -
  let ?r = "bisect_right indices v"
  from ok have srt: "sorted indices" and len: "length indices = length objects"
    and sobj: "set objects = fst ` set its" by (simp_all add: index_ok_def)
  show ?thesis
  proof (intro equalityI subsetI)
    fix obj assume "obj \<in> set (take ?r objects)"
    then obtain j where j: "j < length (take ?r objects)" "take ?r objects ! j = obj"
      by (auto simp: in_set_conv_nth)
    then have jr: "j < ?r" and jl: "j < length objects" and oj: "objects ! j = obj" by simp_all
    from index_ok_nth[OF ok jl] oj obtain cs where
      cs: "map_of its obj = Some cs" "coord cs sd = indices ! j" by auto
    from bisect_right_spec(2)[OF srt jr] cs show "obj \<in> sel_le its sd v"
      unfolding sel_le_def by (intro CollectI exI[of _ cs]) simp
  next
    fix obj assume "obj \<in> sel_le its sd v"
    then obtain cs where cs: "map_of its obj = Some cs" "coord cs sd \<le> v"
      unfolding sel_le_def by blast
    from cs(1) have "obj \<in> fst ` set its" by (metis map_of_eq_None_iff option.distinct(1))
    with sobj have "obj \<in> set objects" by simp
    then obtain j where j: "j < length objects" "objects ! j = obj"
      unfolding in_set_conv_nth by blast
    from index_ok_nth[OF ok j(1)] j(2) cs have ij: "indices ! j \<le> v" by auto
    have "j < ?r"
    proof (rule ccontr)
      assume "\<not> j < ?r"
      then have "?r \<le> j" by simp
      from bisect_right_spec(3)[OF srt this] j(1) len ij show False by simp
    qed
    with j show "obj \<in> set (take ?r objects)" by (auto simp: in_set_conv_nth)
  qed
qed

lemma index_ok_larger:
  assumes ok: "index_ok its sd (indices, objects)"
  shows "set (drop (bisect_left indices v) objects) = sel_ge its sd v"
proof -
  let ?r = "bisect_left indices v"
  from ok have srt: "sorted indices" and len: "length indices = length objects"
    and sobj: "set objects = fst ` set its" by (simp_all add: index_ok_def)
  show ?thesis
  proof (intro equalityI subsetI)
    fix obj assume "obj \<in> set (drop ?r objects)"
    then obtain j where j: "j < length (drop ?r objects)" "drop ?r objects ! j = obj"
      by (auto simp: in_set_conv_nth)
    then have jl: "?r + j < length objects" and oj: "objects ! (?r + j) = obj" by simp_all
    from index_ok_nth[OF ok jl] oj obtain cs where
      cs: "map_of its obj = Some cs" "coord cs sd = indices ! (?r + j)" by auto
    from bisect_left_spec(3)[OF srt, of v "?r + j"] jl len cs show "obj \<in> sel_ge its sd v"
      unfolding sel_ge_def by (intro CollectI exI[of _ cs]) simp
  next
    fix obj assume "obj \<in> sel_ge its sd v"
    then obtain cs where cs: "map_of its obj = Some cs" "v \<le> coord cs sd"
      unfolding sel_ge_def by blast
    from cs(1) have "obj \<in> fst ` set its" by (metis map_of_eq_None_iff option.distinct(1))
    with sobj have "obj \<in> set objects" by simp
    then obtain j where j: "j < length objects" "objects ! j = obj"
      unfolding in_set_conv_nth by blast
    from index_ok_nth[OF ok j(1)] j(2) cs have ij: "v \<le> indices ! j" by auto
    have "?r \<le> j"
    proof (rule ccontr)
      assume "\<not> ?r \<le> j"
      then have "j < ?r" by simp
      from bisect_left_spec(2)[OF srt this] ij show False by simp
    qed
    then obtain k where k: "j = ?r + k" using le_Suc_ex by blast
    with j have "k < length (drop ?r objects)" "drop ?r objects ! k = obj" by simp_all
    then show "obj \<in> set (drop ?r objects)" unfolding in_set_conv_nth by blast
  qed
qed

lemma priv_smaller_inv:
  assumes "invariant s" and "priv_smaller s sd v = (objs, s')"
  shows "invariant s' \<and> items s' = items s \<and> set objs = sel_le (items s) sd v"
proof -
  obtain indices objects s1 where ps: "priv_sorted s sd = ((indices, objects), s1)"
    by (metis surj_pair)
  with assms(2) have "objs = take (bisect_right indices v) objects" "s' = s1"
    by (simp_all add: priv_smaller_def)
  with priv_sorted_inv[OF assms(1) ps] index_ok_smaller show ?thesis by blast
qed

lemma priv_larger_inv:
  assumes "invariant s" and "priv_larger s sd v = (objs, s')"
  shows "invariant s' \<and> items s' = items s \<and> set objs = sel_ge (items s) sd v"
proof -
  obtain indices objects s1 where ps: "priv_sorted s sd = ((indices, objects), s1)"
    by (metis surj_pair)
  with assms(2) have "objs = drop (bisect_left indices v) objects" "s' = s1"
    by (simp_all add: priv_larger_def)
  with priv_sorted_inv[OF assms(1) ps] index_ok_larger show ?thesis by blast
qed

lemma call_meth_inv:
  assumes "invariant s" and "call_meth s t = (objs, s')"
  shows "invariant s' \<and> items s' = items s \<and> set objs = test_set (items s) t"
proof -
  obtain m sd v where t: "t = (m, sd, v)" by (cases t) auto
  show ?thesis
  proof (cases m)
    case Smaller
    with assms t priv_smaller_inv[of s sd v objs s'] show ?thesis by simp
  next
    case Larger
    with assms t priv_larger_inv[of s sd v objs s'] show ?thesis by simp
  qed
qed

lemma test_loop_inv:
  assumes "invariant s" and "test_loop s R ts = (res, s')"
  shows "invariant s' \<and> items s' = items s \<and> res = R \<inter> (\<Inter>t\<in>set ts. test_set (items s) t)"
  using assms
proof (induction ts arbitrary: s R)
  case Nil
  then show ?case by simp
next
  case (Cons t ts)
  obtain objs s1 where cm: "call_meth s t = (objs, s1)" by (metis surj_pair)
  from call_meth_inv[OF Cons.prems(1) cm]
  have s1: "invariant s1" "items s1 = items s" "set objs = test_set (items s) t" by simp_all
  show ?case
  proof (cases "R \<inter> set objs = {}")
    case True
    with Cons.prems(2) cm have "res = R \<inter> set objs" "s' = s1" by simp_all
    with s1 True show ?thesis by auto
  next
    case False
    with Cons.prems(2) cm have "test_loop s1 (R \<inter> set objs) ts = (res, s')" by simp
    from Cons.IH[OF s1(1) this] s1 show ?thesis by auto
  qed
qed

lemma priv_test_inv:
  assumes "invariant s" and "priv_test s t0 ts = (res, s')"
  shows "invariant s' \<and> items s' = items s \<and> res = (\<Inter>t\<in>set (t0 # ts). test_set (items s) t)"
proof -
  obtain objs s1 where cm: "call_meth s t0 = (objs, s1)" by (metis surj_pair)
  from call_meth_inv[OF assms(1) cm]
  have s1: "invariant s1" "items s1 = items s" "set objs = test_set (items s) t0" by simp_all
  show ?thesis
  proof (cases "set objs = {}")
    case True
    with assms(2) cm have "res = set objs" "s' = s1" by (simp_all add: priv_test_def)
    with s1 True show ?thesis by auto
  next
    case False
    with assms(2) cm have "test_loop s1 (set objs) ts = (res, s')" by (simp add: priv_test_def)
    from test_loop_inv[OF s1(1) this] s1 show ?thesis by auto
  qed
qed

subsection \<open>The invariant is kept by every method\<close>

lemma index_ok_distinct:
  assumes "index_ok its sd (indices, objects)" and "distinct (map fst its)"
  shows "distinct objects"
proof -
  from assms(1) have "length objects = length its" "set objects = fst ` set its"
    by (simp_all add: index_ok_def)
  moreover from assms(2) have "card (set (map fst its)) = length (map fst its)"
    by (rule distinct_card)
  ultimately have "card (set objects) = length objects" by simp
  then show ?thesis by (rule card_distinct)
qed

lemma length_list_insert: "length (list_insert i v xs) = Suc (length xs)"
proof -
  have "length (take i xs @ drop i xs) = length xs" by simp
  then show ?thesis unfolding list_insert_def by simp
qed

lemma set_list_insert: "set (list_insert i v xs) = insert v (set xs)"
proof -
  have "set (take i xs) \<union> set (drop i xs) = set xs"
    by (metis append_take_drop_id set_append)
  then show ?thesis unfolding list_insert_def by auto
qed

lemma sorted_list_insert:
  assumes "sorted a"
  shows "sorted (list_insert (bisect_left a x) x a)"
proof -
  let ?i = "bisect_left a x"
  have lo: "\<forall>u\<in>set (take ?i a). u < x"
  proof
    fix u assume "u \<in> set (take ?i a)"
    then obtain j where "j < length (take ?i a)" "take ?i a ! j = u"
      unfolding in_set_conv_nth by blast
    then have "j < ?i" "a ! j = u" by simp_all
    with bisect_left_spec(2)[OF assms, of j x] show "u < x" by simp
  qed
  have hi: "\<forall>u\<in>set (drop ?i a). x \<le> u"
  proof
    fix u assume "u \<in> set (drop ?i a)"
    then obtain j where "j < length (drop ?i a)" "drop ?i a ! j = u"
      unfolding in_set_conv_nth by blast
    then have "?i + j < length a" "a ! (?i + j) = u" by simp_all
    with bisect_left_spec(3)[OF assms, of x "?i + j"] show "x \<le> u" by simp
  qed
  from assms have "sorted (take ?i a)" "sorted (drop ?i a)"
    by (simp_all add: sorted_wrt_take sorted_wrt_drop)
  with lo hi show ?thesis
    unfolding list_insert_def by (fastforce simp: sorted_append)
qed

lemma map_of_snoc_fresh:
  assumes "obj \<notin> fst ` set its"
  shows "map_of (its @ [(obj, cs)]) x = (if x = obj then Some cs else map_of its x)"
proof -
  from assms have "map_of its obj = None" by (simp add: map_of_eq_None_iff)
  then show ?thesis by (cases "map_of its x") (auto simp: map_add_def)
qed

lemma add_side_ok:
  assumes ok: "index_ok its sd (indices, objects)" and fresh: "obj \<notin> fst ` set its"
  shows "index_ok (its @ [(obj, cs)]) sd (snd (add_side obj cs (sd, (indices, objects))))"
proof -
  let ?c = "coord cs sd"
  let ?i = "bisect_left indices ?c"
  let ?R = "\<lambda>its obj c. map_option (\<lambda>cs. coord cs sd) (map_of its obj) = Some c"
  from ok have srt: "sorted indices" and len: "length indices = length its"
    "length objects = length its" and sobj: "set objects = fst ` set its"
    and al: "list_all2 (?R its) objects indices" by (simp_all add: index_ok_def)
  have al': "list_all2 (?R (its @ [(obj, cs)])) objects indices"
  proof (rule list.rel_mono_strong[OF al])
    fix ob c assume "ob \<in> set objects" "?R its ob c"
    with sobj fresh have "ob \<noteq> obj" by auto
    with \<open>?R its ob c\<close> show "?R (its @ [(obj, cs)]) ob c"
      by (simp add: map_of_snoc_fresh[OF fresh] del: map_of_append)
  qed
  have new: "?R (its @ [(obj, cs)]) obj ?c"
    by (simp add: map_of_snoc_fresh[OF fresh] del: map_of_append)
  have "list_all2 (?R (its @ [(obj, cs)])) (take ?i objects @ obj # drop ?i objects)
          (take ?i indices @ ?c # drop ?i indices)"
    using al' new by (intro list_all2_appendI list_all2_takeI list.rel_intros list_all2_dropI)
  moreover have "sorted (list_insert ?i ?c indices)" by (rule sorted_list_insert[OF srt])
  ultimately show ?thesis
    using len sobj
    by (simp add: add_side_def index_ok_def Let_def length_list_insert set_list_insert)
       (simp add: list_insert_def)
qed

lemma add_invariant:
  assumes "invariant s"
  shows "invariant (add gc s obj)"
proof (cases "map_of (items s) obj")
  case (Some a)
  with assms show ?thesis by (simp add: add_def)
next
  case None
  then have fresh: "obj \<notin> fst ` set (items s)" by (simp add: map_of_eq_None_iff)
  let ?cs = "gc obj"
  have its: "AList.update obj ?cs (items s) = items s @ [(obj, ?cs)]"
    using fresh by (rule update_fresh)
  have a: "add gc s obj = \<lparr>items = items s @ [(obj, ?cs)], index = map (add_side obj ?cs) (index s)\<rparr>"
    using None its by (simp add: add_def Let_def)
  have fst_side: "\<And>e. fst (add_side obj ?cs e) = fst e"
    by (simp add: add_side_def Let_def split: prod.splits)
  have d1: "distinct (map fst (items s @ [(obj, ?cs)]))"
    using assms fresh by (simp add: invariant_def)
  have d2: "distinct (map fst (map (add_side obj ?cs) (index s)))"
    using assms by (simp add: invariant_def fst_side comp_def)
  have ok: "\<forall>(sd, e) \<in> set (map (add_side obj ?cs) (index s)).
              index_ok (items s @ [(obj, ?cs)]) sd e"
  proof
    fix p assume "p \<in> set (map (add_side obj ?cs) (index s))"
    then obtain sd ind objs where mem: "(sd, ind, objs) \<in> set (index s)"
      and eq: "p = add_side obj ?cs (sd, ind, objs)" by auto
    from assms mem have "index_ok (items s) sd (ind, objs)" by (auto simp: invariant_def)
    from add_side_ok[OF this fresh, of ?cs] eq fst_side[of "(sd, ind, objs)"]
    show "case p of (sd, e) \<Rightarrow> index_ok (items s @ [(obj, ?cs)]) sd e"
      by (simp add: case_prod_beta)
  qed
  show ?thesis unfolding a invariant_def using d1 d2 ok by simp
qed

lemma list_index_Some:
  "v \<in> set xs \<Longrightarrow> \<exists>i. list_index xs v = Some i \<and> i < length xs \<and> xs ! i = v"
  by (induction xs) auto

lemma list_index_SomeD:
  "list_index xs v = Some i \<Longrightarrow> i < length xs \<and> xs ! i = v"
  by (induction xs arbitrary: i) (auto split: if_splits)

lemma list_index_None: "list_index xs v = None \<longleftrightarrow> v \<notin> set xs"
  by (induction xs) auto

lemma length_list_del: "i < length xs \<Longrightarrow> length (list_del i xs) = length xs - 1"
  by (simp add: list_del_def)

lemma set_list_del:
  assumes "distinct xs" and "i < length xs"
  shows "set (list_del i xs) = set xs - {xs ! i}"
proof -
  from assms(2) have xs: "xs = take i xs @ xs ! i # drop (Suc i) xs"
    by (simp add: id_take_nth_drop)
  with assms(1) have "distinct (take i xs @ xs ! i # drop (Suc i) xs)" by simp
  then have "xs ! i \<notin> set (take i xs)" "xs ! i \<notin> set (drop (Suc i) xs)" by auto
  moreover have "set xs = set (take i xs) \<union> {xs ! i} \<union> set (drop (Suc i) xs)"
    by (subst xs) simp
  ultimately show ?thesis unfolding list_del_def by auto
qed

lemma sorted_list_del: "sorted (a :: int list) \<Longrightarrow> sorted (list_del i a)"
proof -
  assume s: "sorted a"
  then have "sorted (take i a @ drop i a)" by simp
  then have "\<forall>x\<in>set (take i a). \<forall>y\<in>set (drop i a). x \<le> y"
    unfolding sorted_append by blast
  moreover have "set (drop (Suc i) a) \<subseteq> set (drop i a)"
    by (rule set_drop_subset_set_drop) simp
  ultimately have "\<forall>x\<in>set (take i a). \<forall>y\<in>set (drop (Suc i) a). x \<le> y" by blast
  with s show ?thesis
    unfolding list_del_def sorted_append by (simp add: sorted_wrt_take sorted_wrt_drop)
qed

lemma length_delete:
  assumes "distinct (map fst its)" and "obj \<in> fst ` set its"
  shows "length (AList.delete obj its) = length its - 1"
  using assms
proof (induction its)
  case Nil
  then show ?case by simp
next
  case (Cons p its)
  show ?case
  proof (cases "fst p = obj")
    case True
    with Cons.prems(1) have "obj \<notin> fst ` set its" by auto
    then have "AList.delete obj its = its" by simp
    with True show ?thesis by simp
  next
    case False
    with Cons.prems have "obj \<in> fst ` set its" "distinct (map fst its)" by auto
    with Cons.IH have "length (AList.delete obj its) = length its - 1" by simp
    moreover from \<open>obj \<in> fst ` set its\<close> have "its \<noteq> []" by auto
    ultimately show ?thesis using False by simp
  qed
qed

lemma keys_delete: "fst ` set (AList.delete obj its) = fst ` set its - {obj}"
proof -
  have "set (map fst (AList.delete obj its)) = set (removeAll obj (map fst its))"
    by (simp only: AList.delete_keys)
  then show ?thesis by simp
qed

lemma del_side_ok:
  assumes ok: "index_ok its sd (indices, objects)" and d: "distinct (map fst its)"
    and li: "list_index objects obj = Some i"
  shows "i < length indices \<and>
         index_ok (AList.delete obj its) sd (list_del i indices, list_del i objects)"
proof -
  let ?R = "\<lambda>its obj c. map_option (\<lambda>cs. coord cs sd) (map_of its obj) = Some c"
  from ok have srt: "sorted indices" and len: "length indices = length its"
    "length objects = length its" and sobj: "set objects = fst ` set its"
    and al: "list_all2 (?R its) objects indices" by (simp_all add: index_ok_def)
  from list_index_SomeD[OF li] have i: "i < length objects" "objects ! i = obj" by simp_all
  then have mem: "obj \<in> fst ` set its" using sobj by (metis nth_mem)
  have dobj: "distinct objects" by (rule index_ok_distinct[OF ok d])
  have set': "set (list_del i objects) = fst ` set (AList.delete obj its)"
    using set_list_del[OF dobj i(1)] i(2) sobj by (simp add: keys_delete)
  have al0: "list_all2 (?R its) (list_del i objects) (list_del i indices)"
    unfolding list_del_def using al by (intro list_all2_appendI list_all2_takeI list_all2_dropI)
  have al': "list_all2 (?R (AList.delete obj its)) (list_del i objects) (list_del i indices)"
  proof (rule list.rel_mono_strong[OF al0])
    fix ob c assume "ob \<in> set (list_del i objects)" "?R its ob c"
    moreover then have "ob \<noteq> obj" using set_list_del[OF dobj i(1)] i(2) by simp
    ultimately show "?R (AList.delete obj its) ob c" by (simp add: AList.delete_conv')
  qed
  have "length (AList.delete obj its) = length its - 1" by (rule length_delete[OF d mem])
  with len i(1) srt set' al' show ?thesis
    by (simp add: index_ok_def length_list_del sorted_list_del)
qed

lemma remove_loop_ok:
  assumes "\<forall>(sd, e) \<in> set idx. index_ok its sd e" and "distinct (map fst its)"
    and "obj \<in> fst ` set its"
  shows "\<exists>idx'. remove_loop obj idx = (Inr (), idx') \<and> map fst idx' = map fst idx \<and>
           (\<forall>(sd, e) \<in> set idx'. index_ok (AList.delete obj its) sd e)"
  using assms(1)
proof (induction idx)
  case Nil
  then show ?case by simp
next
  case (Cons p idx)
  obtain sd indices objects where p: "p = (sd, (indices, objects))" by (cases p) auto
  from Cons.prems p have ok: "index_ok its sd (indices, objects)" by simp
  then have "set objects = fst ` set its" by (simp add: index_ok_def)
  with assms(3) have "obj \<in> set objects" by simp
  from list_index_Some[OF this] obtain i where li: "list_index objects obj = Some i" by blast
  from del_side_ok[OF ok assms(2) li] have i: "i < length indices"
    and ok': "index_ok (AList.delete obj its) sd (list_del i indices, list_del i objects)"
    by simp_all
  from Cons.IH Cons.prems obtain idx' where r: "remove_loop obj idx = (Inr (), idx')"
    and k: "map fst idx' = map fst idx"
    and oks: "\<forall>(sd, e) \<in> set idx'. index_ok (AList.delete obj its) sd e" by auto
  have "remove_loop obj (p # idx) = (Inr (), (sd, (list_del i indices, list_del i objects)) # idx')"
    using p li i r by simp
  with k oks ok' p show ?case by simp
qed

lemma remove_absent_state: "map_of (items s) obj = None \<Longrightarrow> remove s obj = (Inl KeyError, s)"
  by (simp add: remove_def)

lemma remove_managed:
  assumes "invariant s" and "map_of (items s) obj = Some cs"
  shows "\<exists>s'. remove s obj = (Inr (), s') \<and> invariant s' \<and>
           items s' = AList.delete obj (items s)"
proof -
  from assms(2) have mem: "obj \<in> fst ` set (items s)"
    by (metis map_of_eq_None_iff option.distinct(1))
  from assms(1) have d: "distinct (map fst (items s))" "distinct (map fst (index s))"
    and oks: "\<forall>(sd, e) \<in> set (index s). index_ok (items s) sd e"
    by (simp_all add: invariant_def)
  from remove_loop_ok[OF oks d(1) mem] obtain idx' where
    r: "remove_loop obj (index s) = (Inr (), idx')" and k: "map fst idx' = map fst (index s)"
    and oks': "\<forall>(sd, e) \<in> set idx'. index_ok (AList.delete obj (items s)) sd e" by blast
  let ?s' = "\<lparr>items = AList.delete obj (items s), index = idx'\<rparr>"
  have "remove s obj = (Inr (), ?s')" using assms(2) r by (simp add: remove_def)
  moreover have "invariant ?s'"
    using d k oks' by (simp add: invariant_def AList.distinct_delete)
  ultimately show ?thesis by simp
qed

lemma remove_invariant:
  assumes "invariant s"
  shows "invariant (snd (remove s obj))"
proof (cases "map_of (items s) obj")
  case None
  with assms show ?thesis by (simp add: remove_absent_state)
next
  case (Some cs)
  from remove_managed[OF assms Some] show ?thesis by auto
qed

lemma fold_update_distinct:
  "distinct (map fst its) \<Longrightarrow>
     distinct (map fst (fold (\<lambda>obj its. AList.update obj (f obj) its) objs its))"
  by (induction objs arbitrary: its) (simp_all add: AList.distinct_update)

lemma bulk_add_invariant: "invariant s \<Longrightarrow> invariant (bulk_add gc s objs)"
  by (simp add: invariant_def bulk_add_def fold_update_distinct)

lemma clear_invariant: "invariant (clear s)"
  by (simp add: invariant_def clear_def)

lemma empty_invariant: "invariant empty_rectangles"
  by (simp add: invariant_def empty_rectangles_def)

lemma Rectangles_invariant: "invariant (Rectangles gc objs)"
  by (simp add: Rectangles_def empty_invariant bulk_add_invariant)

lemma at_point_inv:
  assumes "invariant s"
  shows "invariant (snd (at_point s x y)) \<and> items (snd (at_point s x y)) = items s"
  using priv_test_inv[OF assms, of _ _ "fst (at_point s x y)" "snd (at_point s x y)"]
  by (simp add: at_point_def)

lemma inside_inv:
  assumes "invariant s"
  shows "invariant (snd (inside s l t r b)) \<and> items (snd (inside s l t r b)) = items s"
  using priv_test_inv[OF assms, of _ _ "fst (inside s l t r b)" "snd (inside s l t r b)"]
  by (simp add: inside_def)

lemma intersecting_inv:
  assumes "invariant s"
  shows "invariant (snd (intersecting s l t r b)) \<and>
         items (snd (intersecting s l t r b)) = items s"
  using priv_test_inv[OF assms, of _ _ "fst (intersecting s l t r b)"
      "snd (intersecting s l t r b)"]
  by (simp add: intersecting_def)

lemma closest_inv:
  assumes "invariant s"
  shows "invariant (snd (closest s obj sd)) \<and> items (snd (closest s obj sd)) = items s"
proof (cases "map_of (items s) obj")
  case None
  with assms show ?thesis by (simp add: closest_def)
next
  case (Some cs)
  obtain indices objects s' where ps: "priv_sorted s (side_xor2 sd) = ((indices, objects), s')"
    by (metis surj_pair)
  from priv_sorted_inv[OF assms ps] have s': "invariant s'" "items s' = items s" by simp_all
  have "snd (closest s obj sd) = s'"
    using Some ps by (simp add: closest_def)
  with s' show ?thesis by simp
qed

lemma nearest_inv:
  assumes "invariant s"
  shows "invariant (snd (nearest lt it s x y)) \<and> items (snd (nearest lt it s x y)) = items s"
proof -
  obtain rmid s1 where t1: "priv_test s (Smaller, Top, y) [(Larger, Bottom, y)] = (rmid, s1)"
    by (metis surj_pair)
  obtain cmid s2 where t2: "priv_test s1 (Smaller, Left, x) [(Larger, Right, x)] = (cmid, s2)"
    by (metis surj_pair)
  obtain cleft s3 where t3: "priv_larger s2 Left x = (cleft, s3)" by (metis surj_pair)
  obtain cright s4 where t4: "priv_smaller s3 Right x = (cright, s4)" by (metis surj_pair)
  obtain rtop s5 where t5: "priv_larger s4 Top y = (rtop, s5)" by (metis surj_pair)
  obtain rbottom s6 where t6: "priv_smaller s5 Bottom y = (rbottom, s6)" by (metis surj_pair)
  from priv_test_inv[OF assms t1] have i1: "invariant s1" "items s1 = items s" by simp_all
  from priv_test_inv[OF i1(1) t2] i1 have i2: "invariant s2" "items s2 = items s" by simp_all
  from priv_larger_inv[OF i2(1) t3] i2 have i3: "invariant s3" "items s3 = items s" by simp_all
  from priv_smaller_inv[OF i3(1) t4] i3 have i4: "invariant s4" "items s4 = items s" by simp_all
  from priv_larger_inv[OF i4(1) t5] i4 have i5: "invariant s5" "items s5 = items s" by simp_all
  from priv_smaller_inv[OF i5(1) t6] i5 have i6: "invariant s6" "items s6 = items s" by simp_all
  have "snd (nearest lt it s x y) = s2 \<or> snd (nearest lt it s x y) = s6"
    unfolding nearest_def t1 t2 t3 t4 t5 t6 prod.case by simp
  with i2 i6 show ?thesis by auto
qed

lemma reachable_invariant: "reachable gc s \<Longrightarrow> invariant s"
proof (induction rule: reachable.induct)
  case (r_init objects)
  show ?case by (rule Rectangles_invariant)
next
  case (r_add s obj)
  then show ?case by (simp add: add_invariant)
next
  case (r_bulk_add s objects)
  then show ?case by (simp add: bulk_add_invariant)
next
  case (r_remove s obj)
  then show ?case by (simp add: remove_invariant)
next
  case (r_clear s)
  show ?case by (rule clear_invariant)
next
  case (r_at s x y)
  then show ?case by (simp add: at_point_inv)
next
  case (r_inside s l t r b)
  then show ?case by (simp add: inside_inv)
next
  case (r_intersecting s l t r b)
  then show ?case by (simp add: intersecting_inv)
next
  case (r_nearest s obj_lt set_iter x y)
  then show ?case by (simp add: nearest_inv)
next
  case (r_closest s obj sd)
  then show ?case by (simp add: closest_inv)
qed

lemma at_point_set:
  assumes "invariant s"
  shows "fst (at_point s x y) =
           sel_le (items s) Top y \<inter> sel_ge (items s) Bottom y \<inter>
           sel_le (items s) Left x \<inter> sel_ge (items s) Right x"
  using priv_test_inv[OF assms, of _ _ "fst (at_point s x y)" "snd (at_point s x y)"]
  by (auto simp: at_point_def)

lemma inside_set:
  assumes "invariant s"
  shows "fst (inside s l t r b) =
           sel_ge (items s) Top t \<inter> sel_le (items s) Bottom b \<inter>
           sel_ge (items s) Left l \<inter> sel_le (items s) Right r"
  using priv_test_inv[OF assms, of _ _ "fst (inside s l t r b)" "snd (inside s l t r b)"]
  by (auto simp: inside_def)

lemma intersecting_set:
  assumes "invariant s"
  shows "fst (intersecting s l t r b) =
           sel_le (items s) Top b \<inter> sel_ge (items s) Bottom t \<inter>
           sel_le (items s) Left r \<inter> sel_ge (items s) Right l"
  using priv_test_inv[OF assms, of _ _ "fst (intersecting s l t r b)"
      "snd (intersecting s l t r b)"]
  by (auto simp: intersecting_def)

subsection \<open>The claims\<close>

lemma ex_bulk_eval:
  "ex_bulk = \<lparr>items = [(0, (0, 0, 10, 10)), (1, (20, 20, 30, 30))], index = []\<rparr>"
  by code_simp

lemma ex_built_eval:
  "ex_built = \<lparr>items = [(0, (0, 0, 10, 10)), (1, (20, 20, 30, 30))],
      index = [(Top, ([0, 20], [0, 1])), (Bottom, ([10, 30], [0, 1])),
               (Left, ([0, 20], [0, 1])), (Right, ([10, 30], [0, 1]))]\<rparr>"
  by code_simp

lemma ex_bulk_reachable: "reachable ex_coords ex_bulk"
  unfolding ex_bulk_def by (rule reachable.r_init)

lemma ex_built_reachable: "reachable ex_coords ex_built"
  unfolding ex_built_def by (intro reachable.r_add reachable.r_at reachable.r_init)

lemma ex_bulk_invariant: "invariant ex_bulk"
  by (rule reachable_invariant[OF ex_bulk_reachable])

lemma ex_built_invariant: "invariant ex_built"
  by (rule reachable_invariant[OF ex_built_reachable])

text \<open>
  C4. In every reachable state, \<open>at(x, y)\<close> returns exactly the set of the managed objects
  whose stored rectangle \<open>(left, top, right, bottom)\<close> has \<open>top \<le> y\<close>, \<open>bottom \<ge> y\<close>,
  \<open>left \<le> x\<close> and \<open>right \<ge> x\<close>, the four boundaries included. The result is a set:
  unordered, without duplicates, possibly empty.
\<close>

theorem at_point_exact:
  assumes "reachable gc s"
  shows "fst (at_point s x y) =
           {obj. \<exists>l t r b. map_of (items s) obj = Some (l, t, r, b) \<and>
                   t \<le> y \<and> b \<ge> y \<and> l \<le> x \<and> r \<ge> x}"
proof -
  from assms have "invariant s" by (rule reachable_invariant)
  then have "fst (at_point s x y) =
           sel_le (items s) Top y \<inter> sel_ge (items s) Bottom y \<inter>
           sel_le (items s) Left x \<inter> sel_ge (items s) Right x" by (rule at_point_set)
  also have "\<dots> = {obj. \<exists>l t r b. map_of (items s) obj = Some (l, t, r, b) \<and>
                   t \<le> y \<and> b \<ge> y \<and> l \<le> x \<and> r \<ge> x}"
    by (auto simp: sel_le_def sel_ge_def)
  finally show ?thesis .
qed

theorem at_point_exact_witness:
  "reachable ex_coords ex_built \<and> fst (at_point ex_built 10 10) = {0} \<and>
   {obj. \<exists>l t r b. map_of (items ex_built) obj = Some (l, t, r, b) \<and>
           t \<le> 10 \<and> b \<ge> 10 \<and> l \<le> 10 \<and> r \<ge> 10} = {0}"
proof -
  have "fst (at_point ex_built 10 10) = {0}" by code_simp
  with at_point_exact[OF ex_built_reachable, of 10 10] ex_built_reachable
  show ?thesis by simp
qed

text \<open>
  C5. The invariant holds in the state the constructor builds and is kept by every
  operation (\<open>add\<close>, \<open>bulk_add\<close>, \<open>remove\<close>, \<open>clear\<close> and the five queries, whether they
  return or raise): in the state an operation leaves, every
  side index that is present has exactly as many entries as the item store, holds exactly
  the objects of the item store, and its coordinates are sorted in non-decreasing order.
\<close>

theorem invariant_preserved:
  assumes "invariant s"
  shows "invariant (add gc s obj) \<and> invariant (bulk_add gc s objs) \<and>
         invariant (snd (remove s obj')) \<and> invariant (clear s) \<and>
         invariant (snd (at_point s x y)) \<and> invariant (snd (inside s l t r b)) \<and>
         invariant (snd (intersecting s l' t' r' b')) \<and>
         invariant (snd (nearest obj_lt set_iter s x' y')) \<and>
         invariant (snd (closest s obj'' sd)) \<and>
         invariant (Rectangles gc objs') \<and>
         (\<forall>(sd', (indices, objects)) \<in> set (index s).
            length indices = length (items s) \<and> length objects = length (items s) \<and>
            set objects = fst ` set (items s) \<and> sorted indices)"
proof -
  have "\<forall>(sd', (indices, objects)) \<in> set (index s).
            length indices = length (items s) \<and> length objects = length (items s) \<and>
            set objects = fst ` set (items s) \<and> sorted indices"
  proof
    fix p assume "p \<in> set (index s)"
    with assms have "case p of (sd', e) \<Rightarrow> index_ok (items s) sd' e"
      unfolding invariant_def by blast
    then show "case p of (sd', (indices, objects)) \<Rightarrow>
            length indices = length (items s) \<and> length objects = length (items s) \<and>
            set objects = fst ` set (items s) \<and> sorted indices"
      by (cases p rule: prod_cases3) (simp add: index_ok_def)
  qed
  with assms show ?thesis
    by (simp add: add_invariant bulk_add_invariant remove_invariant clear_invariant
        at_point_inv inside_inv intersecting_inv nearest_inv closest_inv Rectangles_invariant)
qed

theorem invariant_preserved_witness:
  "invariant ex_built \<and> invariant (add ex_coords ex_built 2) \<and>
   invariant (bulk_add ex_coords ex_built [2, 3]) \<and>
   invariant (snd (remove ex_built 0)) \<and> invariant (clear ex_built) \<and>
   invariant (snd (at_point ex_built 5 5)) \<and> invariant (snd (inside ex_built 0 0 25 25)) \<and>
   invariant (snd (intersecting ex_built 5 5 25 25)) \<and>
   invariant (snd (nearest None sorted_list_of_set ex_built 15 15)) \<and>
   invariant (snd (closest ex_built 0 Right)) \<and>
   index (add ex_coords ex_built 2) =
     [(Top, ([0, 5, 20], [0, 2, 1])), (Bottom, ([10, 15, 30], [0, 2, 1])),
      (Left, ([0, 0, 20], [2, 0, 1])), (Right, ([10, 10, 30], [2, 0, 1]))] \<and>
   snd (remove ex_built 0) =
     \<lparr>items = [(1, (20, 20, 30, 30))],
      index = [(Top, ([20], [1])), (Bottom, ([30], [1])),
               (Left, ([20], [1])), (Right, ([30], [1]))]\<rparr>"
proof -
  have "index (add ex_coords ex_built 2) =
     [(Top, ([0, 5, 20], [0, 2, 1])), (Bottom, ([10, 15, 30], [0, 2, 1])),
      (Left, ([0, 0, 20], [2, 0, 1])), (Right, ([10, 10, 30], [2, 0, 1]))]"
    by code_simp
  moreover have "snd (remove ex_built 0) =
     \<lparr>items = [(1, (20, 20, 30, 30))],
      index = [(Top, ([20], [1])), (Bottom, ([30], [1])),
               (Left, ([20], [1])), (Right, ([30], [1]))]\<rparr>"
    by code_simp
  moreover note invariant_preserved[OF ex_built_invariant, where gc = ex_coords and obj = 2
      and objs = "[2, 3]" and obj' = 0 and x = 5 and y = 5 and l = 0 and t = 0 and r = 25
      and b = 25 and l' = 5 and t' = 5 and r' = 25 and b' = 25 and obj_lt = None
      and set_iter = sorted_list_of_set and x' = 15 and y' = 15 and obj'' = 0 and sd = Right]
  ultimately show ?thesis using ex_built_invariant by simp
qed

text \<open>
  C6. In every state, \<open>remove(o)\<close> of an object that is not in the item store raises
  KeyError ("not found") and changes nothing: the state after the call is the state
  before it, so the item store, every side index, the size and membership are unchanged.
\<close>

theorem remove_unmanaged:
  assumes "obj \<notin> fst ` set (items s)"
  shows "remove s obj = (Inl KeyError, s)"
proof -
  from assms have "map_of (items s) obj = None" by (simp add: map_of_eq_None_iff)
  then show ?thesis by (rule remove_absent_state)
qed

theorem remove_unmanaged_witness:
  "(7::nat) \<notin> fst ` set (items ex_built) \<and> remove ex_built 7 = (Inl KeyError, ex_built) \<and>
   len (snd (remove ex_built 7)) = 2 \<and> contains (snd (remove ex_built 7)) 0"
proof -
  have a: "(7::nat) \<notin> fst ` set (items ex_built)" by (simp add: ex_built_eval)
  have "len ex_built = 2" "contains ex_built 0" by (simp_all add: ex_built_eval len_def contains_def)
  with a remove_unmanaged[OF a] show ?thesis by simp
qed

text \<open>
  C8. \<open>add\<close> is idempotent. Adding an object that is already managed returns at once: the
  state is unchanged (the size, the item store, every side index, and with them the
  results of all later queries), and \<open>get_coords\<close> is not called, so the outcome is the
  same whatever \<open>get_coords\<close> would return. In particular a second \<open>add(o)\<close> right after a
  first changes nothing.
\<close>

theorem add_idempotent:
  "add gc' (add gc s obj) obj = add gc s obj \<and> (contains s obj \<longrightarrow> add gc' s obj = s)"
proof -
  have "map_of (items (add gc s obj)) obj \<noteq> None"
    by (cases "map_of (items s) obj") (simp_all add: add_def Let_def AList.update_conv')
  then have "add gc' (add gc s obj) obj = add gc s obj"
    by (auto simp: add_def[of gc' "add gc s obj"])
  moreover have "contains s obj \<longrightarrow> add gc' s obj = s"
    by (auto simp: contains_def add_def)
  ultimately show ?thesis ..
qed

theorem add_idempotent_witness:
  "contains ex_built 1 \<and> add (\<lambda>_. (1, 2, 3, 4)) ex_built 1 = ex_built \<and>
   add (\<lambda>_. (1, 2, 3, 4)) (add ex_coords ex_built 2) 2 = add ex_coords ex_built 2 \<and>
   len (add ex_coords ex_built 2) = 3"
proof -
  have c: "contains ex_built 1" by (simp add: ex_built_eval contains_def)
  have "len (add ex_coords ex_built 2) = 3" by code_simp
  with c add_idempotent[of "\<lambda>_. (1, 2, 3, 4)" ex_coords ex_built 2]
    add_idempotent[of "\<lambda>_. (1, 2, 3, 4)" ex_coords ex_built 1]
  show ?thesis by simp
qed

text \<open>
  C9. In every state whose stored rectangles all have \<open>left < right\<close> and \<open>top < bottom\<close>,
  and for every query rectangle \<open>(l, t, r, b)\<close>, the set \<open>inside(l, t, r, b)\<close> is a subset
  of the set \<open>intersecting(l, t, r, b)\<close>.
\<close>

theorem inside_subset_intersecting:
  assumes "invariant s"
    and "\<forall>(obj, cs) \<in> set (items s). coord cs Left < coord cs Right \<and> coord cs Top < coord cs Bottom"
  shows "fst (inside s l t r b) \<subseteq> fst (intersecting s l t r b)"
proof
  fix obj assume "obj \<in> fst (inside s l t r b)"
  then have "obj \<in> sel_ge (items s) Top t \<inter> sel_le (items s) Bottom b \<inter>
           sel_ge (items s) Left l \<inter> sel_le (items s) Right r"
    by (simp only: inside_set[OF assms(1)])
  then obtain cs where cs: "map_of (items s) obj = Some cs"
    and i: "t \<le> coord cs Top" "coord cs Bottom \<le> b" "l \<le> coord cs Left" "coord cs Right \<le> r"
    unfolding sel_ge_def sel_le_def by force
  from cs have "(obj, cs) \<in> set (items s)" by (rule map_of_SomeD)
  with assms(2) have nd: "coord cs Left < coord cs Right" "coord cs Top < coord cs Bottom"
    by auto
  from i nd have "coord cs Top \<le> b" "t \<le> coord cs Bottom" "coord cs Left \<le> r"
    "l \<le> coord cs Right" by simp_all
  with cs have "obj \<in> sel_le (items s) Top b \<inter> sel_ge (items s) Bottom t \<inter>
           sel_le (items s) Left r \<inter> sel_ge (items s) Right l"
    unfolding sel_ge_def sel_le_def by blast
  then show "obj \<in> fst (intersecting s l t r b)"
    by (simp only: intersecting_set[OF assms(1)])
qed

theorem inside_subset_intersecting_witness:
  "invariant ex_built \<and>
   list_all (\<lambda>(obj, cs). coord cs Left < coord cs Right \<and> coord cs Top < coord cs Bottom)
     (items ex_built) \<and>
   fst (inside ex_built 0 0 25 25) \<subseteq> fst (intersecting ex_built 0 0 25 25) \<and>
   fst (inside ex_built 0 0 25 25) = {0} \<and> fst (intersecting ex_built 0 0 25 25) = {0, 1}"
proof -
  have nd: "\<forall>(obj, cs) \<in> set (items ex_built).
      coord cs Left < coord cs Right \<and> coord cs Top < coord cs Bottom"
    by (simp add: ex_built_eval)
  have "fst (inside ex_built 0 0 25 25) = {0}" by code_simp
  moreover have "fst (intersecting ex_built 0 0 25 25) = {0, 1}" by code_simp
  moreover note inside_subset_intersecting[OF ex_built_invariant nd, of 0 0 25 25]
  moreover have "list_all (\<lambda>(obj, cs). coord cs Left < coord cs Right \<and> coord cs Top < coord cs Bottom)
     (items ex_built)" by (simp add: ex_built_eval)
  ultimately show ?thesis using ex_built_invariant by blast
qed

text \<open>
  C10. The sets \<open>at\<close>, \<open>inside\<close> and \<open>intersecting\<close> return depend on the item store only,
  not on which side indices are built: two states with the same item store, one with no
  side index yet (the query builds them) and one with the indices built and maintained by
  \<open>add\<close>, give the same sets.
\<close>

theorem queries_depend_on_items_only:
  assumes "invariant s" and "invariant s'" and "items s' = items s"
  shows "fst (at_point s' x y) = fst (at_point s x y) \<and>
         fst (inside s' l t r b) = fst (inside s l t r b) \<and>
         fst (intersecting s' l t r b) = fst (intersecting s l t r b)"
  using assms by (simp add: at_point_set inside_set intersecting_set)

theorem queries_depend_on_items_only_witness:
  "invariant ex_bulk \<and> invariant ex_built \<and> items ex_built = items ex_bulk \<and>
   index ex_bulk = [] \<and> map fst (index ex_built) = [Top, Bottom, Left, Right] \<and>
   fst (at_point ex_built 5 5) = fst (at_point ex_bulk 5 5) \<and>
   fst (inside ex_built 0 0 25 25) = fst (inside ex_bulk 0 0 25 25) \<and>
   fst (intersecting ex_built 0 0 25 25) = fst (intersecting ex_bulk 0 0 25 25) \<and>
   fst (intersecting ex_bulk 0 0 25 25) = {0, 1}"
proof -
  have e: "items ex_built = items ex_bulk" by (simp add: ex_built_eval ex_bulk_eval)
  have "index ex_bulk = []" "map fst (index ex_built) = [Top, Bottom, Left, Right]"
    by (simp_all add: ex_built_eval ex_bulk_eval)
  moreover have "fst (intersecting ex_bulk 0 0 25 25) = {0, 1}" by code_simp
  moreover note queries_depend_on_items_only[OF ex_bulk_invariant ex_built_invariant e,
      of 5 5 0 0 25 25]
  ultimately show ?thesis using e ex_bulk_invariant ex_built_invariant by simp
qed

lemma sel_le_Nil: "sel_le [] sd v = {}"
  by (simp add: sel_le_def)

lemma sel_ge_Nil: "sel_ge [] sd v = {}"
  by (simp add: sel_ge_def)

lemma nearest_empty:
  assumes "invariant s" and "items s = []"
  shows "fst (nearest obj_lt set_iter s x y) = Inr None"
proof -
  obtain rmid s1 where t1: "priv_test s (Smaller, Top, y) [(Larger, Bottom, y)] = (rmid, s1)"
    by (metis surj_pair)
  obtain cmid s2 where t2: "priv_test s1 (Smaller, Left, x) [(Larger, Right, x)] = (cmid, s2)"
    by (metis surj_pair)
  obtain cleft s3 where t3: "priv_larger s2 Left x = (cleft, s3)" by (metis surj_pair)
  obtain cright s4 where t4: "priv_smaller s3 Right x = (cright, s4)" by (metis surj_pair)
  obtain rtop s5 where t5: "priv_larger s4 Top y = (rtop, s5)" by (metis surj_pair)
  obtain rbottom s6 where t6: "priv_smaller s5 Bottom y = (rbottom, s6)" by (metis surj_pair)
  from priv_test_inv[OF assms(1) t1] assms(2)
  have i1: "invariant s1" "items s1 = []" "rmid = {}" by (simp_all add: sel_le_Nil)
  from priv_test_inv[OF i1(1) t2] i1
  have i2: "invariant s2" "items s2 = []" "cmid = {}" by (simp_all add: sel_le_Nil)
  from priv_larger_inv[OF i2(1) t3] i2
  have i3: "invariant s3" "items s3 = []" "set cleft = {}" by (simp_all add: sel_ge_Nil)
  from priv_smaller_inv[OF i3(1) t4] i3
  have i4: "invariant s4" "items s4 = []" "set cright = {}" by (simp_all add: sel_le_Nil)
  from priv_larger_inv[OF i4(1) t5] i4
  have i5: "invariant s5" "items s5 = []" "set rtop = {}" by (simp_all add: sel_ge_Nil)
  from priv_smaller_inv[OF i5(1) t6] i5
  have i6: "set rbottom = {}" by (simp_all add: sel_le_Nil)
  show ?thesis
    unfolding nearest_def t1 t2 t3 t4 t5 t6 prod.case
    using i1(3) i2(3) i3(3) i4(3) i5(3) i6 by (simp add: nearest_sides_def)
qed

text \<open>
  C3, as the code has it. On an empty index (no stored item) \<open>at\<close>, \<open>inside\<close> and
  \<open>intersecting\<close> return the empty set and \<open>nearest\<close> returns no object, for all
  arguments. \<open>closest\<close> does not return: its first statement looks the object up in the
  item store, no object is managed, and the call raises KeyError, leaving the state as it
  was.
\<close>

theorem empty_index_queries:
  assumes "invariant s" and "items s = []"
  shows "fst (at_point s x y) = {} \<and> fst (inside s l t r b) = {} \<and>
         fst (intersecting s l t r b) = {} \<and>
         fst (nearest obj_lt set_iter s x y) = Inr None \<and>
         closest s obj sd = (Inl KeyError, s)"
proof -
  have "closest s obj sd = (Inl KeyError, s)" using assms(2) by (simp add: closest_def)
  with assms show ?thesis
    by (simp add: at_point_set inside_set intersecting_set sel_le_Nil sel_ge_Nil nearest_empty)
qed

theorem empty_index_queries_witness:
  "invariant (empty_rectangles :: nat rectangles) \<and>
   items (empty_rectangles :: nat rectangles) = [] \<and>
   fst (at_point (empty_rectangles :: nat rectangles) 5 5) = {} \<and>
   fst (inside (empty_rectangles :: nat rectangles) 0 0 25 25) = {} \<and>
   fst (intersecting (empty_rectangles :: nat rectangles) 0 0 25 25) = {} \<and>
   fst (nearest None sorted_list_of_set (empty_rectangles :: nat rectangles) 5 5) = Inr None \<and>
   closest (empty_rectangles :: nat rectangles) 0 Right = (Inl KeyError, empty_rectangles)"
proof -
  have e: "items (empty_rectangles :: nat rectangles) = []" by (simp add: empty_rectangles_def)
  from empty_index_queries[OF empty_invariant e, of 5 5 0 0 25 25 None sorted_list_of_set 0 Right]
    empty_invariant e
  show ?thesis by simp
qed

theorem closest_empty_counterexample:
  "fst (closest (empty_rectangles :: nat rectangles) 0 Right) = Inl KeyError"
  by (simp add: closest_def empty_rectangles_def)

lemma map_of_add_side:
  "map_of (map (add_side obj cs) idx) sd =
     map_option (\<lambda>e. snd (add_side obj cs (sd, e))) (map_of idx sd)"
  by (induction idx) (auto simp: add_side_def Let_def)

text \<open>
  C2, as the code has it. In a state whose side indices are present, \<open>add(o)\<close> of an
  object that is not yet managed inserts \<open>o\<close>'s entry into each side index at the leftmost
  insertion point (\<^verbatim>\<open>bisect_left\<close>): every entry before it is strictly smaller and every
  entry after it is greater or equal, so \<open>o\<close> comes before all existing entries of equal
  value. Every side index stays sorted.
\<close>

theorem add_inserts_before_ties:
  assumes "invariant s" and "obj \<notin> fst ` set (items s)"
    and "(sd, (indices, objects)) \<in> set (index s)"
  shows "\<exists>i\<le>length indices.
           map_of (index (add gc s obj)) sd =
             Some (take i indices @ coord (gc obj) sd # drop i indices,
                   take i objects @ obj # drop i objects) \<and>
           (\<forall>u\<in>set (take i indices). u < coord (gc obj) sd) \<and>
           (\<forall>u\<in>set (drop i indices). coord (gc obj) sd \<le> u) \<and>
           sorted (take i indices @ coord (gc obj) sd # drop i indices) \<and>
           invariant (add gc s obj)"
proof -
  let ?c = "coord (gc obj) sd"
  let ?i = "bisect_left indices ?c"
  from assms(1,3) have ok: "index_ok (items s) sd (indices, objects)"
    and d: "distinct (map fst (index s))" by (auto simp: invariant_def)
  then have srt: "sorted indices" by (simp add: index_ok_def)
  from d assms(3) have m: "map_of (index s) sd = Some (indices, objects)"
    by (rule map_of_is_SomeI)
  from assms(2) have none: "map_of (items s) obj = None" by (simp add: map_of_eq_None_iff)
  have "map_of (index (add gc s obj)) sd =
          Some (take ?i indices @ ?c # drop ?i indices, take ?i objects @ obj # drop ?i objects)"
    using none m by (simp add: add_def Let_def map_of_add_side add_side_def list_insert_def)
  moreover have "\<forall>u\<in>set (take ?i indices). u < ?c"
  proof
    fix u assume "u \<in> set (take ?i indices)"
    then obtain j where "j < length (take ?i indices)" "take ?i indices ! j = u"
      unfolding in_set_conv_nth by blast
    then have "j < ?i" "indices ! j = u" by simp_all
    with bisect_left_spec(2)[OF srt, of j ?c] show "u < ?c" by simp
  qed
  moreover have "\<forall>u\<in>set (drop ?i indices). ?c \<le> u"
  proof
    fix u assume "u \<in> set (drop ?i indices)"
    then obtain j where "j < length (drop ?i indices)" "drop ?i indices ! j = u"
      unfolding in_set_conv_nth by blast
    then have "?i + j < length indices" "indices ! (?i + j) = u" by simp_all
    with bisect_left_spec(3)[OF srt, of ?c "?i + j"] show "?c \<le> u" by simp
  qed
  moreover have "sorted (take ?i indices @ ?c # drop ?i indices)"
    using sorted_list_insert[OF srt, of ?c] by (simp add: list_insert_def)
  moreover have "invariant (add gc s obj)" by (rule add_invariant[OF assms(1)])
  moreover have "?i \<le> length indices" by (rule bisect_left_spec(1)[OF srt])
  ultimately show ?thesis by blast
qed

theorem add_inserts_before_ties_witness:
  "invariant ex_built \<and> 2 \<notin> fst ` set (items ex_built) \<and>
   (Left, ([0, 20], [0, 1])) \<in> set (index ex_built) \<and> coord (ex_coords 2) Left = 0 \<and>
   (\<exists>i\<le>length [0, 20 :: int].
      map_of (index (add ex_coords ex_built 2)) Left =
        Some (take i [0, 20] @ coord (ex_coords 2) Left # drop i [0, 20],
              take i [0, 1] @ 2 # drop i [0, 1]) \<and>
      (\<forall>u\<in>set (take i [0, 20]). u < coord (ex_coords 2) Left) \<and>
      (\<forall>u\<in>set (drop i [0, 20]). coord (ex_coords 2) Left \<le> u) \<and>
      sorted (take i [0, 20] @ coord (ex_coords 2) Left # drop i [0, 20]) \<and>
      invariant (add ex_coords ex_built 2))"
proof -
  have a: "2 \<notin> fst ` set (items ex_built)" by (simp add: ex_built_eval)
  have b: "(Left, ([0, 20], [0, 1])) \<in> set (index ex_built)" by (simp add: ex_built_eval)
  have c: "coord (ex_coords 2) Left = 0" by (simp add: ex_coords_def)
  from add_inserts_before_ties[OF ex_built_invariant a b, of ex_coords] a b c ex_built_invariant
  show ?thesis by blast
qed

theorem add_tie_counterexample:
  "map_of (index ex_built) Left = Some ([0, 20], [0, 1]) \<and> \<not> contains ex_built 2 \<and>
   coord (ex_coords 2) Left = 0 \<and>
   map_of (index (add ex_coords ex_built 2)) Left = Some ([0, 0, 20], [2, 0, 1])"
  by code_simp

lemma side_xor2_Right: "side_xor2 Right = Left"
  by (simp add: side_xor2_def side_of_def)

lemma lateral_Right: "lateral (l, t, r, b) Right = of_int (b - r) / 2"
  by (simp add: lateral_def side_xor1_or2_def side_xor_1and2_def side_of_def)

text \<open>
  C1. The failing input: exactly two managed objects, \<open>A\<close> (object 0) with rectangle
  \<open>(0, 0, 10, 10)\<close> and \<open>B\<close> (object 1) with rectangle \<open>(20, 20, 30, 30)\<close>, and the call
  \<open>closest(A, Right)\<close>. \<open>B\<close> lies diagonally below and to the right: the centres of the
  two objects on the cross-axis (the vertical one) are 5 and 25, a lateral offset of 20,
  which is not smaller than the along-axis distance, so \<open>closest\<close> should return no
  object. The code returns \<open>B\<close>. The reason is the expression for \<^verbatim>\<open>lat\<close>: by Python's
  precedence \<^verbatim>\<open>side^1|2\<close> is \<open>Bottom\<close> and \<^verbatim>\<open>side^1&2\<close> is \<open>side\<close> itself, \<open>Right\<close>, so
  \<^verbatim>\<open>lat\<close> is \<open>(bottom - right) / 2\<close>, a difference of a vertical and a horizontal
  coordinate, which is 0 for both objects; \<^verbatim>\<open>dlat = 0 < d = 20\<close> and \<open>B\<close> is accepted.
  The result is the same whether the side index is built by the query or maintained by
  \<open>add\<close>.
\<close>

theorem closest_right_lateral_slip:
  "fst (closest ex_bulk 0 Right) = Inr (Some 1) \<and>
   fst (closest ex_built 0 Right) = Inr (Some 1) \<and>
   side_xor1_or2 Right = Bottom \<and> side_xor_1and2 Right = Right \<and>
   lateral (0, 0, 10, 10) Right = 0 \<and> lateral (20, 20, 30, 30) Right = 0 \<and>
   \<not> (\<bar>of_int (20 + 30) / 2 - of_int (0 + 10) / 2\<bar> <
        (of_int \<bar>coord (20, 20, 30, 30) (side_xor2 Right) -
                 coord (0, 0, 10, 10) (side_xor2 Right)\<bar> :: rat))"
  by code_simp

subsection \<open>nearest on a non-empty index\<close>

lemma side_index_in_range:
  "side_val sd XOR 2 < 4" "(side_val sd XOR 1) OR 2 < 4" "side_val sd XOR (1 AND 2) < 4"
  by (cases sd, simp_all)+

lemma side_of_val: "n < 4 \<Longrightarrow> side_val (side_of n) = n"
  by (auto simp: side_of_def)

lemma py_min_loop_cases:
  assumes "only_type_error lt"
  shows "py_min_loop lt best (map Inr xs) = Inl TypeError \<or>
         (\<exists>m\<in>insert best (set xs). py_min_loop lt best (map Inr xs) = Inr m)"
proof (induction xs arbitrary: best)
  case Nil
  show ?case by simp
next
  case (Cons a xs)
  from assms have "lt a best = Inl TypeError \<or> (\<exists>r. lt a best = Inr r)"
    by (simp add: only_type_error_def)
  then show ?case
  proof
    assume "lt a best = Inl TypeError"
    then show ?thesis by simp
  next
    assume "\<exists>r. lt a best = Inr r"
    then obtain r where r: "lt a best = Inr r" ..
    from Cons.IH[of "if r then a else best"] r show ?thesis by auto
  qed
qed

lemma py_min_loop_total:
  assumes "never_raises lt"
  shows "\<exists>m\<in>insert best (set xs). py_min_loop lt best (map Inr xs) = Inr m"
proof (induction xs arbitrary: best)
  case Nil
  show ?case by simp
next
  case (Cons a xs)
  from assms obtain r where r: "lt a best = Inr r" unfolding never_raises_def by blast
  from Cons.IH[of "if r then a else best"] r show ?case by auto
qed

lemma py_min_cases:
  assumes "only_type_error lt" and "xs \<noteq> []"
  shows "py_min lt (map Inr xs) = Inl TypeError \<or> (\<exists>m\<in>set xs. py_min lt (map Inr xs) = Inr m)"
proof -
  from assms(2) obtain a as where xs: "xs = a # as" by (cases xs) auto
  from py_min_loop_cases[OF assms(1), of a as] show ?thesis
    unfolding xs by (simp add: py_min_def)
qed

lemma py_min_total:
  assumes "never_raises lt" and "xs \<noteq> []"
  shows "\<exists>m\<in>set xs. py_min lt (map Inr xs) = Inr m"
proof -
  from assms(2) obtain a as where xs: "xs = a # as" by (cases xs) auto
  from py_min_loop_total[OF assms(1), of a as] show ?thesis
    unfolding xs by (simp add: py_min_def)
qed

lemma tuple_less_only_type_error: "only_type_error (tuple_less obj_lt)"
  by (cases obj_lt) (auto simp: only_type_error_def tuple_less_def obj_less_def)

lemma tuple_less_never_raises: "never_raises (tuple_less (Some f))"
  by (auto simp: never_raises_def tuple_less_def obj_less_def)

lemma key_less_never_raises: "never_raises (\<lambda>p q. Inr (fst p < fst q))"
  by (simp add: never_raises_def)

text \<open>A generator whose items are all produced without an exception.\<close>

lemma map_keyed:
  assumes "\<forall>obj\<in>set xs. \<exists>k. key obj = Inr k"
  shows "map (\<lambda>obj. case key obj of Inl e \<Rightarrow> Inl e | Inr k \<Rightarrow> Inr (k, obj)) xs =
         map Inr (map (\<lambda>obj. (projr (key obj), obj)) xs)"
  using assms by (induction xs) auto

lemma managed_lookup: "obj \<in> fst ` set its \<Longrightarrow> \<exists>cs. map_of its obj = Some cs"
  by (metis map_of_eq_None_iff not_Some_eq)

lemma center_distance_managed:
  "obj \<in> fst ` set its \<Longrightarrow> \<exists>k. center_distance its x y obj = Inr k"
  by (auto simp: center_distance_def dest!: managed_lookup)

lemma nearest_mid_ok:
  assumes "mid \<noteq> {}" and "mid \<subseteq> fst ` set its" and "set (set_iter mid) = mid"
  shows "\<exists>obj\<in>mid. nearest_mid set_iter its x y mid = Inr (Some obj)"
proof -
  define xs where "xs = set_iter mid"
  define ps where "ps = map (\<lambda>obj. (projr (center_distance its x y obj), obj)) xs"
  have sxs: "set xs = mid" using assms(3) by (simp add: xs_def)
  have keyed: "\<forall>obj\<in>set xs. \<exists>k. center_distance its x y obj = Inr k"
  proof
    fix obj assume "obj \<in> set xs"
    with sxs assms(2) have "obj \<in> fst ` set its" by blast
    then show "\<exists>k. center_distance its x y obj = Inr k" by (rule center_distance_managed)
  qed
  from sxs assms(1) have "xs \<noteq> []" by auto
  then have "ps \<noteq> []" by (simp add: ps_def)
  from py_min_total[OF key_less_never_raises this] obtain m where
    m: "m \<in> set ps" "py_min (\<lambda>p q. Inr (fst p < fst q)) (map Inr ps) = Inr m" by blast
  from m(1) have "snd m \<in> set xs" unfolding ps_def by auto
  with sxs have "snd m \<in> mid" by simp
  moreover have "py_min_key (center_distance its x y) xs = Inr (snd m)"
    unfolding py_min_key_def map_keyed[OF keyed] using m(2) by (simp add: ps_def)
  then have "nearest_mid set_iter its x y mid = Inr (Some (snd m))"
    by (simp add: nearest_mid_def xs_def)
  ultimately show ?thesis by blast
qed

lemma item_coord_managed: "obj \<in> fst ` set its \<Longrightarrow> \<exists>c. item_coord its obj sd = Inr c"
  by (auto simp: item_coord_def dest!: managed_lookup)

lemma dist_managed:
  assumes "obj \<in> fst ` set its"
  shows "\<exists>d. dist_left its x obj = Inr d" "\<exists>d. dist_right its x obj = Inr d"
    "\<exists>d. dist_top its y obj = Inr d" "\<exists>d. dist_bottom its y obj = Inr d"
proof -
  from managed_lookup[OF assms] obtain cs where "map_of its obj = Some cs" ..
  then show "\<exists>d. dist_left its x obj = Inr d" "\<exists>d. dist_right its x obj = Inr d"
    "\<exists>d. dist_top its y obj = Inr d" "\<exists>d. dist_bottom its y obj = Inr d"
    by (simp_all add: dist_left_def dist_right_def dist_top_def dist_bottom_def item_coord_def)
qed

lemma dist_sum_managed:
  assumes "\<exists>d. f obj = Inr d" and "\<exists>d. g obj = Inr d"
  shows "\<exists>d. dist_sum f g obj = Inr d"
  using assms by (auto simp: dist_sum_def)

text \<open>
  A candidate list is well-formed over the managed objects \<open>K\<close> when each candidate set
  lies in \<open>K\<close>, is enumerated by \<open>set_iter\<close>, and its distance is defined on \<open>K\<close>.
\<close>

lemma nearest_mins_cases:
  assumes "\<forall>(dst, objs)\<in>set cands.
             objs \<subseteq> K \<and> set (set_iter objs) = objs \<and> (\<forall>obj\<in>K. \<exists>d. dst obj = Inr d)"
  shows "nearest_mins obj_lt set_iter cands = Inl TypeError \<or>
         (\<exists>ms. nearest_mins obj_lt set_iter cands = Inr ms \<and> snd ` set ms \<subseteq> K \<and>
               (ms = [] \<longleftrightarrow> (\<forall>(dst, objs)\<in>set cands. objs = {})))"
  using assms
proof (induction cands)
  case Nil
  show ?case by simp
next
  case (Cons c cands)
  obtain dst objs where c: "c = (dst, objs)" by (cases c) auto
  from Cons.prems c have sub: "objs \<subseteq> K" and it: "set (set_iter objs) = objs"
    and dd: "\<forall>obj\<in>K. \<exists>d. dst obj = Inr d" by simp_all
  from Cons.prems have rest: "\<forall>(dst, objs)\<in>set cands.
             objs \<subseteq> K \<and> set (set_iter objs) = objs \<and> (\<forall>obj\<in>K. \<exists>d. dst obj = Inr d)"
    by simp
  note IH = Cons.IH[OF rest]
  show ?case
  proof (cases "objs = {}")
    case True
    with IH c show ?thesis by simp
  next
    case False
    define xs where "xs = set_iter objs"
    define ps where "ps = map (\<lambda>obj. (projr (dst obj), obj)) xs"
    have sxs: "set xs = objs" using it by (simp add: xs_def)
    have keyed: "\<forall>obj\<in>set xs. \<exists>k. dst obj = Inr k" using sxs sub dd by blast
    from sxs False have "xs \<noteq> []" by auto
    then have pne: "ps \<noteq> []" by (simp add: ps_def)
    have gen: "map (\<lambda>obj. case dst obj of Inl e \<Rightarrow> Inl e | Inr d \<Rightarrow> Inr (d, obj)) (set_iter objs)
                 = map Inr ps"
      using map_keyed[OF keyed] by (simp add: ps_def xs_def)
    from py_min_cases[OF tuple_less_only_type_error pne, of obj_lt]
    show ?thesis
    proof
      assume "py_min (tuple_less obj_lt) (map Inr ps) = Inl TypeError"
      then show ?thesis using c False gen by simp
    next
      assume "\<exists>m\<in>set ps. py_min (tuple_less obj_lt) (map Inr ps) = Inr m"
      then obtain m where m: "m \<in> set ps" "py_min (tuple_less obj_lt) (map Inr ps) = Inr m"
        by blast
      from m(1) have "snd m \<in> set xs" unfolding ps_def by auto
      with sxs sub have mk: "snd m \<in> K" by blast
      from IH show ?thesis
      proof
        assume "nearest_mins obj_lt set_iter cands = Inl TypeError"
        then show ?thesis using c False gen m(2) by simp
      next
        assume "\<exists>ms. nearest_mins obj_lt set_iter cands = Inr ms \<and> snd ` set ms \<subseteq> K \<and>
               (ms = [] \<longleftrightarrow> (\<forall>(dst, objs)\<in>set cands. objs = {}))"
        then obtain ms where ms: "nearest_mins obj_lt set_iter cands = Inr ms"
          "snd ` set ms \<subseteq> K" by blast
        have "nearest_mins obj_lt set_iter (c # cands) = Inr (m # ms)"
          using c False gen m(2) ms(1) by simp
        moreover have "snd ` set (m # ms) \<subseteq> K" using mk ms(2) by simp
        ultimately show ?thesis using c False by auto
      qed
    qed
  qed
qed

lemma nearest_mins_total:
  assumes "\<forall>(dst, objs)\<in>set cands.
             objs \<subseteq> K \<and> set (set_iter objs) = objs \<and> (\<forall>obj\<in>K. \<exists>d. dst obj = Inr d)"
  shows "\<exists>ms. nearest_mins (Some f) set_iter cands = Inr ms"
  using assms
proof (induction cands)
  case Nil
  show ?case by simp
next
  case (Cons c cands)
  obtain dst objs where c: "c = (dst, objs)" by (cases c) auto
  from Cons.prems c have sub: "objs \<subseteq> K" and it: "set (set_iter objs) = objs"
    and dd: "\<forall>obj\<in>K. \<exists>d. dst obj = Inr d" by simp_all
  from Cons.prems have rest: "\<forall>(dst, objs)\<in>set cands.
             objs \<subseteq> K \<and> set (set_iter objs) = objs \<and> (\<forall>obj\<in>K. \<exists>d. dst obj = Inr d)"
    by simp
  from Cons.IH[OF rest] obtain ms where ms: "nearest_mins (Some f) set_iter cands = Inr ms" ..
  show ?case
  proof (cases "objs = {}")
    case True
    with ms c show ?thesis by simp
  next
    case False
    define xs where "xs = set_iter objs"
    define ps where "ps = map (\<lambda>obj. (projr (dst obj), obj)) xs"
    have sxs: "set xs = objs" using it by (simp add: xs_def)
    have keyed: "\<forall>obj\<in>set xs. \<exists>k. dst obj = Inr k" using sxs sub dd by blast
    from sxs False have "xs \<noteq> []" by auto
    then have pne: "ps \<noteq> []" by (simp add: ps_def)
    have gen: "map (\<lambda>obj. case dst obj of Inl e \<Rightarrow> Inl e | Inr d \<Rightarrow> Inr (d, obj)) (set_iter objs)
                 = map Inr ps"
      using map_keyed[OF keyed] by (simp add: ps_def xs_def)
    from py_min_total[OF tuple_less_never_raises pne, of f] obtain m where
      "py_min (tuple_less (Some f)) (map Inr ps) = Inr m" by blast
    then show ?thesis using c False gen ms by simp
  qed
qed

lemma sel_le_subset: "sel_le its sd v \<subseteq> fst ` set its"
proof
  fix obj assume "obj \<in> sel_le its sd v"
  then obtain cs where "map_of its obj = Some cs" unfolding sel_le_def by blast
  then have "(obj, cs) \<in> set its" by (rule map_of_SomeD)
  then show "obj \<in> fst ` set its" by force
qed

lemma sel_ge_subset: "sel_ge its sd v \<subseteq> fst ` set its"
proof
  fix obj assume "obj \<in> sel_ge its sd v"
  then obtain cs where "map_of its obj = Some cs" unfolding sel_ge_def by blast
  then have "(obj, cs) \<in> set its" by (rule map_of_SomeD)
  then show "obj \<in> fst ` set its" by force
qed

lemma in_sel_le: "map_of its obj = Some cs \<Longrightarrow> obj \<in> sel_le its sd v \<longleftrightarrow> coord cs sd \<le> v"
  by (cases cs) (simp add: sel_le_def)

lemma in_sel_ge: "map_of its obj = Some cs \<Longrightarrow> obj \<in> sel_ge its sd v \<longleftrightarrow> v \<le> coord cs sd"
  by (cases cs) (simp add: sel_ge_def)

text \<open>
  Every managed object that does not contain the point lies in one of the eight edge and
  corner candidate sets.
\<close>

lemma nearest_coverage:
  assumes "map_of its obj = Some cs"
    and "obj \<notin> (sel_le its Top y \<inter> sel_ge its Bottom y) \<inter> (sel_le its Left x \<inter> sel_ge its Right x)"
  shows "obj \<in> sel_ge its Left x \<inter> (sel_le its Top y \<inter> sel_ge its Bottom y) \<or>
         obj \<in> sel_le its Right x \<inter> (sel_le its Top y \<inter> sel_ge its Bottom y) \<or>
         obj \<in> sel_ge its Top y \<inter> (sel_le its Left x \<inter> sel_ge its Right x) \<or>
         obj \<in> sel_le its Bottom y \<inter> (sel_le its Left x \<inter> sel_ge its Right x) \<or>
         obj \<in> sel_ge its Left x \<inter> sel_ge its Top y \<or>
         obj \<in> sel_le its Right x \<inter> sel_ge its Top y \<or>
         obj \<in> sel_ge its Left x \<inter> sel_le its Bottom y \<or>
         obj \<in> sel_le its Right x \<inter> sel_le its Bottom y"
proof -
  have h: "x \<le> coord cs Left \<or> coord cs Right \<le> x \<or> (coord cs Left \<le> x \<and> x \<le> coord cs Right)"
    by linarith
  have v: "y \<le> coord cs Top \<or> coord cs Bottom \<le> y \<or> (coord cs Top \<le> y \<and> y \<le> coord cs Bottom)"
    by linarith
  from assms(2) h v show ?thesis
    unfolding Int_iff in_sel_le[OF assms(1)] in_sel_ge[OF assms(1)] by blast
qed

lemma nearest_sides_cases:
  assumes K: "rmid \<subseteq> K" "cmid \<subseteq> K" "cleft \<subseteq> K" "cright \<subseteq> K" "rtop \<subseteq> K" "rbottom \<subseteq> K"
    and keys: "K = fst ` set its"
    and it: "\<forall>S. S \<subseteq> K \<longrightarrow> set (set_iter S) = S"
    and cover: "cleft \<inter> rmid \<noteq> {} \<or> cright \<inter> rmid \<noteq> {} \<or> rtop \<inter> cmid \<noteq> {} \<or>
                rbottom \<inter> cmid \<noteq> {} \<or> cleft \<inter> rtop \<noteq> {} \<or> cright \<inter> rtop \<noteq> {} \<or>
                cleft \<inter> rbottom \<noteq> {} \<or> cright \<inter> rbottom \<noteq> {}"
  shows "nearest_sides obj_lt set_iter its x y rmid cmid cleft cright rtop rbottom = Inl TypeError \<or>
         (\<exists>obj\<in>K. nearest_sides obj_lt set_iter its x y rmid cmid cleft cright rtop rbottom
                      = Inr (Some obj))"
    and "obj_lt = Some f \<Longrightarrow>
         \<exists>obj\<in>K. nearest_sides obj_lt set_iter its x y rmid cmid cleft cright rtop rbottom
                      = Inr (Some obj)"
proof -
  define cands where "cands =
     [(dist_left its x, cleft \<inter> rmid),
      (dist_right its x, cright \<inter> rmid),
      (dist_top its y, rtop \<inter> cmid),
      (dist_bottom its y, rbottom \<inter> cmid),
      (dist_sum (dist_top its y) (dist_left its x), cleft \<inter> rtop),
      (dist_sum (dist_top its y) (dist_right its x), cright \<inter> rtop),
      (dist_sum (dist_bottom its y) (dist_left its x), cleft \<inter> rbottom),
      (dist_sum (dist_bottom its y) (dist_right its x), cright \<inter> rbottom)]"
  have ns: "nearest_sides obj_lt set_iter its x y rmid cmid cleft cright rtop rbottom =
     (case nearest_mins obj_lt set_iter cands of
        Inl e \<Rightarrow> Inl e
      | Inr [] \<Rightarrow> Inr None
      | Inr (m # ms) \<Rightarrow>
          (case py_min (tuple_less obj_lt) (map Inr (m # ms)) of
             Inl e \<Rightarrow> Inl e
           | Inr p \<Rightarrow> Inr (Some (snd p))))"
    by (simp only: nearest_sides_def cands_def)
  have el: "\<And>dst objs. objs \<subseteq> K \<Longrightarrow> (\<forall>obj\<in>K. \<exists>d. dst obj = Inr d) \<Longrightarrow>
      objs \<subseteq> K \<and> set (set_iter objs) = objs \<and> (\<forall>obj\<in>K. \<exists>d. dst obj = Inr d)"
    using it by simp
  have dl: "\<forall>obj\<in>K. \<exists>d. dist_left its x obj = Inr d"
    unfolding keys by (intro ballI dist_managed(1))
  have dr: "\<forall>obj\<in>K. \<exists>d. dist_right its x obj = Inr d"
    unfolding keys by (intro ballI dist_managed(2))
  have dt: "\<forall>obj\<in>K. \<exists>d. dist_top its y obj = Inr d"
    unfolding keys by (intro ballI dist_managed(3))
  have db: "\<forall>obj\<in>K. \<exists>d. dist_bottom its y obj = Inr d"
    unfolding keys by (intro ballI dist_managed(4))
  have dtl: "\<forall>obj\<in>K. \<exists>d. dist_sum (dist_top its y) (dist_left its x) obj = Inr d"
    using dt dl by (intro ballI dist_sum_managed) blast+
  have dtr: "\<forall>obj\<in>K. \<exists>d. dist_sum (dist_top its y) (dist_right its x) obj = Inr d"
    using dt dr by (intro ballI dist_sum_managed) blast+
  have dbl: "\<forall>obj\<in>K. \<exists>d. dist_sum (dist_bottom its y) (dist_left its x) obj = Inr d"
    using db dl by (intro ballI dist_sum_managed) blast+
  have dbr: "\<forall>obj\<in>K. \<exists>d. dist_sum (dist_bottom its y) (dist_right its x) obj = Inr d"
    using db dr by (intro ballI dist_sum_managed) blast+
  have sub: "cleft \<inter> rmid \<subseteq> K" "cright \<inter> rmid \<subseteq> K" "rtop \<inter> cmid \<subseteq> K" "rbottom \<inter> cmid \<subseteq> K"
    "cleft \<inter> rtop \<subseteq> K" "cright \<inter> rtop \<subseteq> K" "cleft \<inter> rbottom \<subseteq> K" "cright \<inter> rbottom \<subseteq> K"
    using K by blast+
  have "list_all (\<lambda>(dst, objs).
             objs \<subseteq> K \<and> set (set_iter objs) = objs \<and> (\<forall>obj\<in>K. \<exists>d. dst obj = Inr d)) cands"
    unfolding cands_def list_all_Cons_iff list_all_Nil_iff prod.case
    using el[OF sub(1) dl] el[OF sub(2) dr] el[OF sub(3) dt] el[OF sub(4) db]
      el[OF sub(5) dtl] el[OF sub(6) dtr] el[OF sub(7) dbl] el[OF sub(8) dbr]
    by blast
  then have wf: "\<forall>(dst, objs)\<in>set cands.
             objs \<subseteq> K \<and> set (set_iter objs) = objs \<and> (\<forall>obj\<in>K. \<exists>d. dst obj = Inr d)"
    by (simp add: list_all_iff)
  have "\<not> list_all (\<lambda>(dst, objs). objs = {}) cands"
    unfolding cands_def list_all_Cons_iff list_all_Nil_iff prod.case using cover by blast
  then have nonempty: "\<not> (\<forall>(dst, objs)\<in>set cands. objs = {})"
    by (simp add: list_all_iff)
  have step: "\<And>ms. nearest_mins obj_lt set_iter cands = Inr ms \<Longrightarrow> snd ` set ms \<subseteq> K \<Longrightarrow>
      ms \<noteq> [] \<Longrightarrow>
      nearest_sides obj_lt set_iter its x y rmid cmid cleft cright rtop rbottom =
      (case py_min (tuple_less obj_lt) (map Inr ms) of Inl e \<Rightarrow> Inl e
       | Inr p \<Rightarrow> Inr (Some (snd p)))"
  proof -
    fix ms assume a: "nearest_mins obj_lt set_iter cands = Inr ms" "ms \<noteq> []"
    then obtain m ms' where "ms = m # ms'" by (cases ms) auto
    with a show "nearest_sides obj_lt set_iter its x y rmid cmid cleft cright rtop rbottom =
      (case py_min (tuple_less obj_lt) (map Inr ms) of Inl e \<Rightarrow> Inl e
       | Inr p \<Rightarrow> Inr (Some (snd p)))"
      unfolding ns by simp
  qed
  from nearest_mins_cases[OF wf, of obj_lt]
  show "nearest_sides obj_lt set_iter its x y rmid cmid cleft cright rtop rbottom = Inl TypeError \<or>
         (\<exists>obj\<in>K. nearest_sides obj_lt set_iter its x y rmid cmid cleft cright rtop rbottom
                      = Inr (Some obj))"
  proof
    assume "nearest_mins obj_lt set_iter cands = Inl TypeError"
    then show ?thesis unfolding ns by simp
  next
    assume "\<exists>ms. nearest_mins obj_lt set_iter cands = Inr ms \<and> snd ` set ms \<subseteq> K \<and>
               (ms = [] \<longleftrightarrow> (\<forall>(dst, objs)\<in>set cands. objs = {}))"
    then obtain ms where ms: "nearest_mins obj_lt set_iter cands = Inr ms"
      "snd ` set ms \<subseteq> K" "ms \<noteq> []" using nonempty by blast
    from py_min_cases[OF tuple_less_only_type_error ms(3), of obj_lt]
    show ?thesis
    proof
      assume "py_min (tuple_less obj_lt) (map Inr ms) = Inl TypeError"
      with step[OF ms] show ?thesis by simp
    next
      assume "\<exists>m\<in>set ms. py_min (tuple_less obj_lt) (map Inr ms) = Inr m"
      then obtain p where p: "p \<in> set ms" "py_min (tuple_less obj_lt) (map Inr ms) = Inr p"
        by blast
      with ms(2) have "snd p \<in> K" by auto
      moreover from step[OF ms] p(2)
      have "nearest_sides obj_lt set_iter its x y rmid cmid cleft cright rtop rbottom
              = Inr (Some (snd p))" by simp
      ultimately show ?thesis by blast
    qed
  qed
  show "\<exists>obj\<in>K. nearest_sides obj_lt set_iter its x y rmid cmid cleft cright rtop rbottom
                      = Inr (Some obj)" if lt: "obj_lt = Some f"
  proof -
    from nearest_mins_total[OF wf, of f] lt obtain ms0 where
      ms0: "nearest_mins obj_lt set_iter cands = Inr ms0" by blast
    with nearest_mins_cases[OF wf, of obj_lt] nonempty
    have ms: "nearest_mins obj_lt set_iter cands = Inr ms0" "snd ` set ms0 \<subseteq> K" "ms0 \<noteq> []"
      by auto
    from py_min_total[OF tuple_less_never_raises ms(3), of f] lt obtain p where
      p: "p \<in> set ms0" "py_min (tuple_less obj_lt) (map Inr ms0) = Inr p" by blast
    with ms(2) have "snd p \<in> K" by auto
    moreover from step[OF ms] p(2)
    have "nearest_sides obj_lt set_iter its x y rmid cmid cleft cright rtop rbottom
            = Inr (Some (snd p))" by simp
    ultimately show ?thesis by blast
  qed
qed

lemma nearest_unfold:
  assumes "invariant s"
  obtains s2 s6 where
    "nearest obj_lt set_iter s x y =
       (let its = items s;
            rmid = sel_le its Top y \<inter> sel_ge its Bottom y;
            cmid = sel_le its Left x \<inter> sel_ge its Right x
        in if rmid \<inter> cmid \<noteq> {} then (nearest_mid set_iter its x y (rmid \<inter> cmid), s2)
           else (nearest_sides obj_lt set_iter its x y rmid cmid
                   (sel_ge its Left x) (sel_le its Right x)
                   (sel_ge its Top y) (sel_le its Bottom y), s6))"
proof -
  obtain rmid s1 where t1: "priv_test s (Smaller, Top, y) [(Larger, Bottom, y)] = (rmid, s1)"
    by (metis surj_pair)
  obtain cmid s2 where t2: "priv_test s1 (Smaller, Left, x) [(Larger, Right, x)] = (cmid, s2)"
    by (metis surj_pair)
  obtain cleft s3 where t3: "priv_larger s2 Left x = (cleft, s3)" by (metis surj_pair)
  obtain cright s4 where t4: "priv_smaller s3 Right x = (cright, s4)" by (metis surj_pair)
  obtain rtop s5 where t5: "priv_larger s4 Top y = (rtop, s5)" by (metis surj_pair)
  obtain rbottom s6 where t6: "priv_smaller s5 Bottom y = (rbottom, s6)" by (metis surj_pair)
  from priv_test_inv[OF assms t1]
  have i1: "invariant s1" "items s1 = items s"
    "rmid = sel_le (items s) Top y \<inter> sel_ge (items s) Bottom y" by simp_all
  from priv_test_inv[OF i1(1) t2] i1
  have i2: "invariant s2" "items s2 = items s"
    "cmid = sel_le (items s) Left x \<inter> sel_ge (items s) Right x" by simp_all
  from priv_larger_inv[OF i2(1) t3] i2
  have i3: "invariant s3" "items s3 = items s" "set cleft = sel_ge (items s) Left x" by simp_all
  from priv_smaller_inv[OF i3(1) t4] i3
  have i4: "invariant s4" "items s4 = items s" "set cright = sel_le (items s) Right x" by simp_all
  from priv_larger_inv[OF i4(1) t5] i4
  have i5: "invariant s5" "items s5 = items s" "set rtop = sel_ge (items s) Top y" by simp_all
  from priv_smaller_inv[OF i5(1) t6] i5
  have i6: "items s6 = items s" "set rbottom = sel_le (items s) Bottom y" by simp_all
  have "nearest obj_lt set_iter s x y =
       (let its = items s;
            rmid = sel_le its Top y \<inter> sel_ge its Bottom y;
            cmid = sel_le its Left x \<inter> sel_ge its Right x
        in if rmid \<inter> cmid \<noteq> {} then (nearest_mid set_iter its x y (rmid \<inter> cmid), s2)
           else (nearest_sides obj_lt set_iter its x y rmid cmid
                   (sel_ge its Left x) (sel_le its Right x)
                   (sel_ge its Top y) (sel_le its Bottom y), s6))"
    unfolding nearest_def t1 t2 t3 t4 t5 t6 prod.case Let_def
    unfolding i2(2) i3(3) i4(3) i5(3) i6 i1(3)[symmetric] i2(3)[symmetric] by (rule refl)
  then show ?thesis by (rule that)
qed


text \<open>
  On a non-empty index \<open>nearest\<close> never returns "no object": it returns a managed object,
  or the tuple comparison raises TypeError. When the objects define an order it returns a
  managed object. (\<open>set_iter\<close> has to enumerate the sets it is given.)
\<close>

lemma nearest_nonempty_cases:
  assumes inv: "invariant s" and ne: "items s \<noteq> []"
    and it: "\<forall>S. S \<subseteq> fst ` set (items s) \<longrightarrow> set (set_iter S) = S"
  shows "fst (nearest obj_lt set_iter s x y) = Inl TypeError \<or>
         (\<exists>obj\<in>fst ` set (items s). fst (nearest obj_lt set_iter s x y) = Inr (Some obj))"
    and "obj_lt = Some f \<Longrightarrow>
         \<exists>obj\<in>fst ` set (items s). fst (nearest obj_lt set_iter s x y) = Inr (Some obj)"
proof -
  define its where "its = items s"
  define K where "K = fst ` set its"
  define rmid where "rmid = sel_le its Top y \<inter> sel_ge its Bottom y"
  define cmid where "cmid = sel_le its Left x \<inter> sel_ge its Right x"
  from nearest_unfold[OF inv, of obj_lt set_iter x y] obtain s2 s6 where
    n: "nearest obj_lt set_iter s x y =
         (if rmid \<inter> cmid \<noteq> {} then (nearest_mid set_iter its x y (rmid \<inter> cmid), s2)
          else (nearest_sides obj_lt set_iter its x y rmid cmid
                  (sel_ge its Left x) (sel_le its Right x)
                  (sel_ge its Top y) (sel_le its Bottom y), s6))"
    unfolding Let_def its_def rmid_def cmid_def by blast
  have le: "\<And>sd v. sel_le its sd v \<subseteq> K" and ge: "\<And>sd v. sel_ge its sd v \<subseteq> K"
    unfolding K_def by (rule sel_le_subset, rule sel_ge_subset)
  have sub: "rmid \<subseteq> K" "cmid \<subseteq> K" "sel_ge its Left x \<subseteq> K" "sel_le its Right x \<subseteq> K"
    "sel_ge its Top y \<subseteq> K" "sel_le its Bottom y \<subseteq> K"
    unfolding rmid_def cmid_def by (simp_all add: le ge le_infI1)
  have it': "\<forall>S. S \<subseteq> K \<longrightarrow> set (set_iter S) = S" using it by (simp add: K_def its_def)
  have both: "(fst (nearest obj_lt set_iter s x y) = Inl TypeError \<or>
         (\<exists>obj\<in>K. fst (nearest obj_lt set_iter s x y) = Inr (Some obj))) \<and>
        (obj_lt = Some f \<longrightarrow> (\<exists>obj\<in>K. fst (nearest obj_lt set_iter s x y) = Inr (Some obj)))"
  proof (cases "rmid \<inter> cmid = {}")
    case False
    have "rmid \<inter> cmid \<subseteq> K" using sub by blast
    moreover from this it' have "set (set_iter (rmid \<inter> cmid)) = rmid \<inter> cmid" by blast
    ultimately obtain obj where "obj \<in> rmid \<inter> cmid"
      "nearest_mid set_iter its x y (rmid \<inter> cmid) = Inr (Some obj)"
      using nearest_mid_ok[OF False, of its set_iter x y] unfolding K_def by blast
    with n False sub show ?thesis by auto
  next
    case True
    from ne obtain obj where "obj \<in> K" unfolding K_def its_def by (cases "items s") auto
    then have "obj \<in> fst ` set its" by (simp only: K_def)
    from managed_lookup[OF this] obtain cs where cs: "map_of its obj = Some cs" ..
    from True have "obj \<notin> rmid \<inter> cmid" by simp
    from nearest_coverage[OF cs this[unfolded rmid_def cmid_def]]
    have cover: "sel_ge its Left x \<inter> rmid \<noteq> {} \<or> sel_le its Right x \<inter> rmid \<noteq> {} \<or>
        sel_ge its Top y \<inter> cmid \<noteq> {} \<or> sel_le its Bottom y \<inter> cmid \<noteq> {} \<or>
        sel_ge its Left x \<inter> sel_ge its Top y \<noteq> {} \<or> sel_le its Right x \<inter> sel_ge its Top y \<noteq> {} \<or>
        sel_ge its Left x \<inter> sel_le its Bottom y \<noteq> {} \<or>
        sel_le its Right x \<inter> sel_le its Bottom y \<noteq> {}"
      unfolding rmid_def cmid_def ex_in_conv[symmetric] by blast
    from n True have n': "fst (nearest obj_lt set_iter s x y) =
        nearest_sides obj_lt set_iter its x y rmid cmid
                  (sel_ge its Left x) (sel_le its Right x)
                  (sel_ge its Top y) (sel_le its Bottom y)" by simp
    from nearest_sides_cases(1)[OF sub K_def it' cover, where obj_lt = obj_lt and x = x and y = y]
      nearest_sides_cases(2)[OF sub K_def it' cover, where obj_lt = obj_lt and x = x and y = y
        and f = f]
    show ?thesis unfolding n' by blast
  qed
  from both show "fst (nearest obj_lt set_iter s x y) = Inl TypeError \<or>
         (\<exists>obj\<in>fst ` set (items s). fst (nearest obj_lt set_iter s x y) = Inr (Some obj))"
    unfolding K_def its_def by blast
  from both show "\<exists>obj\<in>fst ` set (items s). fst (nearest obj_lt set_iter s x y) = Inr (Some obj)"
    if "obj_lt = Some f" using that unfolding K_def its_def by blast
qed

text \<open>
  C7. On a non-empty index \<open>nearest\<close> should return an object, and by
  \<open>nearest_nonempty_cases\<close> it never returns "no object"; but it can raise. The failing
  input: the two objects of the specification's example, of a class that defines no order,
  and the point \<open>(15, 15)\<close>. No object contains the point; \<open>B\<close> is the only candidate at
  the lower right and \<open>A\<close> the only one at the upper left (each candidate set has one
  element, so the order of iteration plays no role), both at distance 10, so
  \<^verbatim>\<open>min(result)\<close> compares the tuples \<^verbatim>\<open>(10, A)\<close> and \<^verbatim>\<open>(10, B)\<close>, hence the objects, and
  raises TypeError instead of returning an object. With objects that define an order the
  same call returns \<open>A\<close>.
\<close>

theorem nearest_tie_raises:
  "fst (nearest None sorted_list_of_set ex_bulk 15 15) = Inl TypeError \<and>
   fst (nearest (Some (<)) sorted_list_of_set ex_bulk 15 15) = Inr (Some 0)"
  by code_simp

end
